theory Spec2Isabelle
  imports Complex_Main
begin

section \<open>The tableau simplex solver of lpsolver/solver.py\<close>

text \<open>
  This first embedding is in exact arithmetic: a float is a \<open>real\<close>. It carries the results
  that are about exact arithmetic or that relate the outputs of a run to its final tableau.
  The only non-finite float the solver creates on purpose is \<open>float('inf')\<close> in the ratio
  list, modelled by the constructor \<open>PInf\<close> below. A numpy division by zero (which yields inf
  or nan and a warning, not an exception) has no value in exact arithmetic and is the outcome
  \<open>NonFinite\<close>. The second embedding, further down, is over binary64 values with their
  infinities and NaN, and carries the results about the control flow of the program.
  Arrays are lists, a matrix is the list of its rows. The inputs of \<open>solve\<close> are meant to
  be shape-consistent arrays (\<open>wf_problem\<close>: \<open>A\<close> is \<open>m \<times> n\<close>, \<open>c\<close> has length \<open>n\<close>, \<open>b\<close> has
  length \<open>m\<close>); the results that depend on the shape assume it.
\<close>

datatype solver_error =
    EmptyMin       \<comment> \<open>ValueError: min() arg is an empty sequence\<close>
  | NonFinite      \<comment> \<open>a division by a zero pivot element\<close>

datatype solve_result =
    Optimal "real list" real int     \<comment> \<open>solution, objective\_value, iterations\<close>
  | Unbounded int                    \<comment> \<open>iterations\<close>
  | IterationLimit int               \<comment> \<open>iterations\<close>

record lpsolver =
  tableau :: "real list list"
  num_variables :: nat
  num_constraints :: nat
  basis :: "nat list"
  objective_value :: "real option"
  solution :: "real list option"

definition new_solver :: lpsolver where
  \<comment> \<open>\<open>__init__\<close>; the empty lists stand for \<open>None\<close>, which \<open>solve\<close> overwrites before any read\<close>
  "new_solver = \<lparr>tableau = [], num_variables = 0, num_constraints = 0, basis = [],
                 objective_value = None, solution = None\<rparr>"

definition eps :: real where
  "eps = 1 / 10 ^ 10"

definition wf_problem :: "real list \<Rightarrow> real list list \<Rightarrow> real list \<Rightarrow> bool" where
  "wf_problem c A b \<longleftrightarrow> length b = length A \<and> list_all (\<lambda>row. length row = length c) A"

definition eye_row :: "nat \<Rightarrow> nat \<Rightarrow> real list" where
  "eye_row m i = map (\<lambda>k. if k = i then 1 else 0) [0..<m]"

definition standard_form ::
  "real list \<Rightarrow> real list list \<Rightarrow> real list \<Rightarrow> real list \<times> real list list \<times> real list" where
  "standard_form c A b =
     (let m = length A;
          A_new = map (\<lambda>i. A ! i @ eye_row m i) [0..<m];
          c_new = c @ replicate m 0
      in (c_new, A_new, b))"

definition create_initial_tableau ::
  "real list \<Rightarrow> real list list \<Rightarrow> real list \<Rightarrow> real list list" where
  "create_initial_tableau c A b =
     (map uminus c @ [0]) # map (\<lambda>i. A ! i @ [b ! i]) [0..<length A]"

definition initialize_basis :: "lpsolver \<Rightarrow> nat list" where
  "initialize_basis s = [num_variables s - num_constraints s ..< num_variables s]"

definition isclose :: "real \<Rightarrow> real \<Rightarrow> real \<Rightarrow> bool" where
  \<comment> \<open>\<open>np.isclose(a, b, atol=atol)\<close> with the default \<open>rtol = 1e-5\<close>\<close>
  "isclose a b atol \<longleftrightarrow> \<bar>a - b\<bar> \<le> atol + (1 / 10 ^ 5) * \<bar>b\<bar>"

fun first_negative :: "nat \<Rightarrow> real list \<Rightarrow> nat option" where
  \<comment> \<open>the \<open>for j, coeff in enumerate(obj_row)\<close> loop, \<open>j\<close> counting from the first argument\<close>
  "first_negative j [] = None"
| "first_negative j (coeff # rest) =
     (if coeff < - eps \<and> \<not> isclose coeff 0 eps then Some j else first_negative (Suc j) rest)"

definition get_entering_variable :: "lpsolver \<Rightarrow> nat option" where
  "get_entering_variable s =
     (let obj_row = butlast (tableau s ! 0)
      in if list_all (\<lambda>x. x \<ge> - eps) obj_row then None else first_negative 0 obj_row)"

datatype ratio = Fin real | PInf

fun ratio_nonneg :: "ratio \<Rightarrow> bool" where
  "ratio_nonneg (Fin x) = (x \<ge> 0)"
| "ratio_nonneg PInf = True"

fun ratio_less :: "ratio \<Rightarrow> ratio \<Rightarrow> bool" where
  "ratio_less (Fin x) (Fin y) = (x < y)"
| "ratio_less (Fin x) PInf = True"
| "ratio_less PInf r = False"

fun min_by_ratio :: "(ratio \<times> nat) list \<Rightarrow> (ratio \<times> nat) option" where
  \<comment> \<open>Python's \<open>min(seq, key=lambda x: x[0])\<close>: the running minimum is replaced only by a
      strictly smaller key; the empty sequence raises\<close>
  "min_by_ratio [] = None"
| "min_by_ratio (r # rs) =
     Some (foldl (\<lambda>best y. if ratio_less (fst y) (fst best) then y else best) r rs)"

definition ratios_of :: "real list \<Rightarrow> real list \<Rightarrow> (ratio \<times> nat) list" where
  \<comment> \<open>the quotient of a candidate row is exact here, hence finite; \<open>ratios_fl\<close> below is the
      list over binary64 values, where a quotient can overflow to infinity\<close>
  "ratios_of column b =
     map (\<lambda>i. if column ! i > eps then (Fin (b ! i / column ! i), i) else (PInf, i))
         [0..<length b]"

definition get_leaving_variable :: "lpsolver \<Rightarrow> nat \<Rightarrow> solver_error + nat option" where
  "get_leaving_variable s entering_idx =
     (let column = map (\<lambda>row. row ! entering_idx) (tl (tableau s));
          b = map last (tl (tableau s))
      in if list_all (\<lambda>x. x \<le> eps) column then Inr None
         else (case min_by_ratio (filter (\<lambda>r. ratio_nonneg (fst r)) (ratios_of column b)) of
                 None \<Rightarrow> Inl EmptyMin
               | Some (min_ratio, leaving_idx) \<Rightarrow> Inr (Some leaving_idx)))"

definition row_update :: "nat \<Rightarrow> nat \<Rightarrow> real list list \<Rightarrow> nat \<Rightarrow> real list list" where
  \<comment> \<open>one pass of the loop body of \<open>pivot\<close> for row \<open>i\<close>\<close>
  "row_update pivot_row entering_idx T i =
     (if i \<noteq> pivot_row
      then T[i := map2 (\<lambda>x p. x - (T ! i ! entering_idx) * p) (T ! i) (T ! pivot_row)]
      else T)"

definition pivot :: "lpsolver \<Rightarrow> nat \<Rightarrow> nat \<Rightarrow> lpsolver option" where
  \<comment> \<open>\<open>None\<close> when the pivot element is zero: the quotients have no value in exact
      arithmetic. The program does not stop there; \<open>pivot_fl\<close> below is the pivot over
      binary64 values, which fills the tableau with infinities and NaN\<close>
  "pivot s entering_idx leaving_idx =
     (let T = tableau s;
          pivot_row = leaving_idx + 1;
          pivot_element = T ! pivot_row ! entering_idx
      in if pivot_element = 0 then None
         else
           let T1 = T[pivot_row := map (\<lambda>x. x / pivot_element) (T ! pivot_row)];
               T2 = foldl (row_update pivot_row entering_idx) T1 [0..<length T1]
           in Some (s\<lparr>tableau := T2, basis := (basis s)[leaving_idx := entering_idx]\<rparr>))"

definition extract_solution :: "lpsolver \<Rightarrow> real list \<times> real" where
  "extract_solution s =
     (let n = num_variables s - num_constraints s;
          sol = foldl (\<lambda>sol (i, var_idx).
                         if var_idx < n then sol[var_idx := last (tableau s ! (i + 1))] else sol)
                      (replicate (num_variables s) 0) (enumerate 0 (basis s))
      in (take n sol, - last (tableau s ! 0)))"

function solve_loop :: "int \<Rightarrow> int \<Rightarrow> lpsolver \<Rightarrow> (solver_error + solve_result) \<times> lpsolver" where
  \<comment> \<open>the loop in exact arithmetic: a run that meets a zero pivot element leaves the exact
      model with \<open>Inl NonFinite\<close>; \<open>solve_loop_fl\<close> below follows such a run\<close>
  "solve_loop max_iterations iteration s =
     (if iteration < max_iterations then
        (case get_entering_variable s of
           None \<Rightarrow>
             (let (sol, obj) = extract_solution s
              in (Inr (Optimal sol obj iteration),
                  s\<lparr>solution := Some sol, objective_value := Some obj\<rparr>))
         | Some entering_idx \<Rightarrow>
             (case get_leaving_variable s entering_idx of
                Inl err \<Rightarrow> (Inl err, s)
              | Inr None \<Rightarrow> (Inr (Unbounded iteration), s)
              | Inr (Some leaving_idx) \<Rightarrow>
                  (case pivot s entering_idx leaving_idx of
                     None \<Rightarrow> (Inl NonFinite, s)
                   | Some s' \<Rightarrow> solve_loop max_iterations (iteration + 1) s')))
      else (Inr (IterationLimit max_iterations), s))"
  by pat_completeness auto
termination
  by (relation "measure (\<lambda>(max_iterations, iteration, s). nat (max_iterations - iteration))") auto

declare solve_loop.simps [simp del]

definition setup_solver :: "lpsolver \<Rightarrow> real list \<Rightarrow> real list list \<Rightarrow> real list \<Rightarrow> lpsolver" where
  \<comment> \<open>the part of \<open>solve\<close> before the loop; \<open>A_std.shape[1]\<close> is the length of \<open>c_std\<close>\<close>
  "setup_solver s c A b =
     (let s1 = s\<lparr>num_constraints := length A\<rparr>;
          (c_std, A_std, b_std) = standard_form c A b;
          s2 = s1\<lparr>num_variables := length c_std\<rparr>;
          s3 = s2\<lparr>tableau := create_initial_tableau c_std A_std b_std\<rparr>
      in s3\<lparr>basis := initialize_basis s3\<rparr>)"

definition solve ::
  "lpsolver \<Rightarrow> real list \<Rightarrow> real list list \<Rightarrow> real list \<Rightarrow> int
     \<Rightarrow> (solver_error + solve_result) \<times> lpsolver" where
  "solve s c A b max_iterations = solve_loop max_iterations 0 (setup_solver s c A b)"

subsection \<open>The loop as a sequence of states\<close>

definition next_state :: "lpsolver \<Rightarrow> lpsolver option" where
  \<comment> \<open>the state at the start of the next iteration, when the loop body completes a pivot\<close>
  "next_state s =
     (case get_entering_variable s of
        None \<Rightarrow> None
      | Some entering_idx \<Rightarrow>
          (case get_leaving_variable s entering_idx of
             Inr (Some leaving_idx) \<Rightarrow> pivot s entering_idx leaving_idx
           | _ \<Rightarrow> None))"

fun iterate_loop :: "nat \<Rightarrow> lpsolver \<Rightarrow> lpsolver option" where
  "iterate_loop 0 s = Some s"
| "iterate_loop (Suc k) s =
     (case next_state s of None \<Rightarrow> None | Some s' \<Rightarrow> iterate_loop k s')"

fun iterations_of :: "solve_result \<Rightarrow> int" where
  "iterations_of (Optimal sol obj k) = k"
| "iterations_of (Unbounded k) = k"
| "iterations_of (IterationLimit k) = k"

subsection \<open>Predicates on tableau states\<close>

definition wf_state :: "lpsolver \<Rightarrow> bool" where
  "wf_state s \<longleftrightarrow>
     length (tableau s) = num_constraints s + 1 \<and>
     list_all (\<lambda>row. length row = num_variables s + 1) (tableau s) \<and>
     length (basis s) = num_constraints s \<and>
     num_constraints s \<le> num_variables s \<and>
     list_all (\<lambda>v. v < num_variables s) (basis s)"

definition basis_invariant :: "lpsolver \<Rightarrow> bool" where
  \<comment> \<open>the column of \<open>basis[i]\<close> on the rows 1..m is the i-th unit vector\<close>
  "basis_invariant s \<longleftrightarrow>
     list_all (\<lambda>i. list_all (\<lambda>k. tableau s ! (k + 1) ! (basis s ! i) = (if k = i then 1 else 0))
                       [0..<length (basis s)])
              [0..<length (basis s)]"


definition candidate :: "lpsolver \<Rightarrow> nat \<Rightarrow> nat \<Rightarrow> bool" where
  \<comment> \<open>constraint \<open>i\<close> (tableau row \<open>i + 1\<close>) has an entry above \<open>eps\<close> in column \<open>j\<close>\<close>
  "candidate s j i \<longleftrightarrow> tableau s ! (i + 1) ! j > eps"

definition row_ratio :: "lpsolver \<Rightarrow> nat \<Rightarrow> nat \<Rightarrow> real" where
  "row_ratio s j i = last (tableau s ! (i + 1)) / (tableau s ! (i + 1) ! j)"


definition dot :: "real list \<Rightarrow> real list \<Rightarrow> real" where
  "dot c x = sum_list (map2 (*) c x)"

definition current_objective :: "real list \<Rightarrow> lpsolver \<Rightarrow> real" where
  \<comment> \<open>the objective c.x at the basic solution that \<open>extract_solution\<close> reads off the state\<close>
  "current_objective c s = dot c (fst (extract_solution s))"

definition objective_row_invariant :: "real list \<Rightarrow> lpsolver \<Rightarrow> bool" where
  \<comment> \<open>row 0 is the initial row 0 plus the basic costs times the constraint rows\<close>
  "objective_row_invariant cs s \<longleftrightarrow>
     (\<forall>k \<le> num_variables s.
        tableau s ! 0 ! k =
          - (cs ! k) + (\<Sum>i<num_constraints s. cs ! (basis s ! i) * tableau s ! (i + 1) ! k))"

definition loop_invariant :: "real list \<Rightarrow> lpsolver \<Rightarrow> bool" where
  \<comment> \<open>what holds of the solver at the start of every iteration of \<open>solve\<close> on costs \<open>c\<close>\<close>
  "loop_invariant c s \<longleftrightarrow>
     wf_state s \<and> basis_invariant s \<and>
     num_variables s = length c + num_constraints s \<and>
     objective_row_invariant (c @ replicate (num_constraints s) 0 @ [0]) s"

section \<open>The standard-form step of lpsolver/model.py\<close>













section \<open>The solver on binary64 values\<close>

text \<open>
  A second embedding of lpsolver/solver.py, over the values a numpy float64 takes: finite
  numbers, the two zeros, the two infinities and NaN. Comparisons and negation are the IEEE
  ones. The rounded operations the solver uses (subtraction, multiplication, division) are a
  parameter \<open>ops\<close>: what is proved for every \<open>ops\<close> holds of the program whatever the rounding.
  No operation raises; a division by zero yields an infinity or NaN and the loop carries on.
  The instance \<open>binary64\<close> gives the exact result when it is in range, an infinity when it
  overflows, and the IEEE result on zeros, infinities and NaN; it agrees with binary64
  arithmetic whenever the exact result is representable, and is used on such inputs only.
\<close>

datatype fl = Finite real | NegZero | PosInf | NegInf | NaN

fun fl_rank :: "fl \<Rightarrow> nat" where
  "fl_rank NegInf = 0"
| "fl_rank PosInf = 2"
| "fl_rank x = 1"

fun fl_val :: "fl \<Rightarrow> real" where
  "fl_val (Finite x) = x"
| "fl_val x = 0"

definition fl_lt :: "fl \<Rightarrow> fl \<Rightarrow> bool" where
  \<comment> \<open>\<open>a < b\<close> on floats: false when either is NaN; the two zeros are equal\<close>
  "fl_lt a b \<longleftrightarrow>
     a \<noteq> NaN \<and> b \<noteq> NaN \<and>
     (fl_rank a < fl_rank b \<or> (fl_rank a = fl_rank b \<and> fl_val a < fl_val b))"

definition fl_le :: "fl \<Rightarrow> fl \<Rightarrow> bool" where
  \<comment> \<open>\<open>a <= b\<close> on floats\<close>
  "fl_le a b \<longleftrightarrow>
     a \<noteq> NaN \<and> b \<noteq> NaN \<and>
     (fl_rank a < fl_rank b \<or> (fl_rank a = fl_rank b \<and> fl_val a \<le> fl_val b))"

fun fl_neg :: "fl \<Rightarrow> fl" where
  "fl_neg (Finite x) = (if x = 0 then NegZero else Finite (- x))"
| "fl_neg NegZero = Finite 0"
| "fl_neg PosInf = NegInf"
| "fl_neg NegInf = PosInf"
| "fl_neg NaN = NaN"

fun fl_abs :: "fl \<Rightarrow> fl" where
  "fl_abs (Finite x) = Finite \<bar>x\<bar>"
| "fl_abs NegZero = Finite 0"
| "fl_abs PosInf = PosInf"
| "fl_abs NegInf = PosInf"
| "fl_abs NaN = NaN"

record float_ops =
  fsub :: "fl \<Rightarrow> fl \<Rightarrow> fl"
  fmul :: "fl \<Rightarrow> fl \<Rightarrow> fl"
  fdiv :: "fl \<Rightarrow> fl \<Rightarrow> fl"

subsection \<open>The instance used on concrete inputs\<close>

fun fl_negative :: "fl \<Rightarrow> bool" where
  \<comment> \<open>the sign bit\<close>
  "fl_negative (Finite x) = (x < 0)"
| "fl_negative NegZero = True"
| "fl_negative NegInf = True"
| "fl_negative x = False"

definition is_zero :: "fl \<Rightarrow> bool" where
  "is_zero a \<longleftrightarrow> a = Finite 0 \<or> a = NegZero"

definition is_inf :: "fl \<Rightarrow> bool" where
  "is_inf a \<longleftrightarrow> a = PosInf \<or> a = NegInf"

definition signed_inf :: "bool \<Rightarrow> fl" where
  "signed_inf neg = (if neg then NegInf else PosInf)"

definition signed_zero :: "bool \<Rightarrow> fl" where
  "signed_zero neg = (if neg then NegZero else Finite 0)"

definition fl_result :: "bool \<Rightarrow> real \<Rightarrow> fl" where
  \<comment> \<open>the float for an exact result \<open>r\<close>; \<open>neg\<close> is the sign of a zero result. Results of
      magnitude \<open>2^1024 - 2^970\<close> or more round to an infinity.\<close>
  "fl_result neg r =
     (if r = 0 then signed_zero neg
      else if 2 ^ 1024 - 2 ^ 970 \<le> \<bar>r\<bar> then signed_inf (r < 0)
      else Finite r)"

definition b64_add :: "fl \<Rightarrow> fl \<Rightarrow> fl" where
  "b64_add a b =
     (if a = NaN \<or> b = NaN then NaN
      else if is_inf a \<and> is_inf b then (if a = b then a else NaN)
      else if is_inf a then a
      else if is_inf b then b
      else fl_result (a = NegZero \<and> b = NegZero) (fl_val a + fl_val b))"

definition b64_sub :: "fl \<Rightarrow> fl \<Rightarrow> fl" where
  "b64_sub a b = b64_add a (fl_neg b)"

definition b64_mul :: "fl \<Rightarrow> fl \<Rightarrow> fl" where
  "b64_mul a b =
     (if a = NaN \<or> b = NaN then NaN
      else if (is_inf a \<and> is_zero b) \<or> (is_zero a \<and> is_inf b) then NaN
      else if is_inf a \<or> is_inf b then signed_inf (fl_negative a \<noteq> fl_negative b)
      else fl_result (fl_negative a \<noteq> fl_negative b) (fl_val a * fl_val b))"

definition b64_div :: "fl \<Rightarrow> fl \<Rightarrow> fl" where
  "b64_div a b =
     (if a = NaN \<or> b = NaN then NaN
      else if (is_inf a \<and> is_inf b) \<or> (is_zero a \<and> is_zero b) then NaN
      else if is_inf a \<or> is_zero b then signed_inf (fl_negative a \<noteq> fl_negative b)
      else if is_inf b then signed_zero (fl_negative a \<noteq> fl_negative b)
      else fl_result (fl_negative a \<noteq> fl_negative b) (fl_val a / fl_val b))"

definition binary64 :: float_ops where
  "binary64 = \<lparr>fsub = b64_sub, fmul = b64_mul, fdiv = b64_div\<rparr>"

subsection \<open>The solver\<close>

datatype fl_solve_result =
    FOptimal "fl list" fl int     \<comment> \<open>solution, objective\_value, iterations\<close>
  | FUnbounded int                \<comment> \<open>iterations\<close>
  | FIterationLimit int           \<comment> \<open>iterations\<close>


record flsolver =
  fl_tableau :: "fl list list"
  fl_num_variables :: nat
  fl_num_constraints :: nat
  fl_basis :: "nat list"
  fl_objective_value :: "fl option"
  fl_solution :: "fl list option"

definition new_flsolver :: flsolver where
  "new_flsolver = \<lparr>fl_tableau = [], fl_num_variables = 0, fl_num_constraints = 0,
                    fl_basis = [], fl_objective_value = None, fl_solution = None\<rparr>"

definition eps64 :: real where
  \<comment> \<open>the binary64 value of the literal \<open>1e-10\<close>\<close>
  "eps64 = 7737125245533627 / 2 ^ 86"

definition eye_row_fl :: "nat \<Rightarrow> nat \<Rightarrow> fl list" where
  "eye_row_fl m i = map (\<lambda>k. if k = i then Finite 1 else Finite 0) [0..<m]"

definition standard_form_fl ::
  "fl list \<Rightarrow> fl list list \<Rightarrow> fl list \<Rightarrow> fl list \<times> fl list list \<times> fl list" where
  "standard_form_fl c A b =
     (let m = length A;
          A_new = map (\<lambda>i. A ! i @ eye_row_fl m i) [0..<m];
          c_new = c @ replicate m (Finite 0)
      in (c_new, A_new, b))"

definition create_initial_tableau_fl :: "fl list \<Rightarrow> fl list list \<Rightarrow> fl list \<Rightarrow> fl list list" where
  "create_initial_tableau_fl c A b =
     (map fl_neg c @ [Finite 0]) # map (\<lambda>i. A ! i @ [b ! i]) [0..<length A]"

definition initialize_basis_fl :: "flsolver \<Rightarrow> nat list" where
  "initialize_basis_fl s = [fl_num_variables s - fl_num_constraints s ..< fl_num_variables s]"

definition isclose_fl :: "fl \<Rightarrow> bool" where
  \<comment> \<open>\<open>np.isclose(coeff, 0, atol=1e-10)\<close>: \<open>|coeff - 0| <= atol + rtol * |0|\<close>, false of a
      coefficient that is not finite\<close>
  "isclose_fl coeff \<longleftrightarrow> fl_le (fl_abs coeff) (Finite eps64)"

fun first_negative_fl :: "nat \<Rightarrow> fl list \<Rightarrow> nat option" where
  "first_negative_fl j [] = None"
| "first_negative_fl j (coeff # rest) =
     (if fl_lt coeff (Finite (- eps64)) \<and> \<not> isclose_fl coeff then Some j
      else first_negative_fl (Suc j) rest)"

definition get_entering_variable_fl :: "flsolver \<Rightarrow> nat option" where
  "get_entering_variable_fl s =
     (let obj_row = butlast (fl_tableau s ! 0)
      in if list_all (\<lambda>x. fl_le (Finite (- eps64)) x) obj_row then None
         else first_negative_fl 0 obj_row)"

fun min_by_key_fl :: "(fl \<times> nat) list \<Rightarrow> (fl \<times> nat) option" where
  \<comment> \<open>\<open>min(seq, key=lambda x: x[0])\<close>: replaced only by a strictly smaller key\<close>
  "min_by_key_fl [] = None"
| "min_by_key_fl (r # rs) =
     Some (foldl (\<lambda>best y. if fl_lt (fst y) (fst best) then y else best) r rs)"

definition ratios_fl :: "float_ops \<Rightarrow> fl list \<Rightarrow> fl list \<Rightarrow> (fl \<times> nat) list" where
  "ratios_fl ops column b =
     map (\<lambda>i. if fl_lt (Finite eps64) (column ! i) then (fdiv ops (b ! i) (column ! i), i)
              else (PosInf, i))
         [0..<length b]"

definition get_leaving_variable_fl ::
  "float_ops \<Rightarrow> flsolver \<Rightarrow> nat \<Rightarrow> solver_error + nat option" where
  "get_leaving_variable_fl ops s entering_idx =
     (let column = map (\<lambda>row. row ! entering_idx) (tl (fl_tableau s));
          b = map last (tl (fl_tableau s))
      in if list_all (\<lambda>x. fl_le x (Finite eps64)) column then Inr None
         else (case min_by_key_fl
                      (filter (\<lambda>r. fl_le (Finite 0) (fst r)) (ratios_fl ops column b)) of
                 None \<Rightarrow> Inl EmptyMin
               | Some (min_ratio, leaving_idx) \<Rightarrow> Inr (Some leaving_idx)))"

definition row_update_fl ::
  "float_ops \<Rightarrow> nat \<Rightarrow> nat \<Rightarrow> fl list list \<Rightarrow> nat \<Rightarrow> fl list list" where
  "row_update_fl ops pivot_row entering_idx T i =
     (if i \<noteq> pivot_row
      then T[i := map2 (\<lambda>x p. fsub ops x (fmul ops (T ! i ! entering_idx) p))
                   (T ! i) (T ! pivot_row)]
      else T)"

definition pivot_fl :: "float_ops \<Rightarrow> flsolver \<Rightarrow> nat \<Rightarrow> nat \<Rightarrow> flsolver" where
  "pivot_fl ops s entering_idx leaving_idx =
     (let T = fl_tableau s;
          pivot_row = leaving_idx + 1;
          pivot_element = T ! pivot_row ! entering_idx;
          T1 = T[pivot_row := map (\<lambda>x. fdiv ops x pivot_element) (T ! pivot_row)];
          T2 = foldl (row_update_fl ops pivot_row entering_idx) T1 [0..<length T1]
      in s\<lparr>fl_tableau := T2, fl_basis := (fl_basis s)[leaving_idx := entering_idx]\<rparr>)"

definition extract_solution_fl :: "flsolver \<Rightarrow> fl list \<times> fl" where
  "extract_solution_fl s =
     (let n = fl_num_variables s - fl_num_constraints s;
          sol = foldl (\<lambda>sol (i, var_idx).
                         if var_idx < n then sol[var_idx := last (fl_tableau s ! (i + 1))]
                         else sol)
                      (replicate (fl_num_variables s) (Finite 0)) (enumerate 0 (fl_basis s))
      in (take n sol, fl_neg (last (fl_tableau s ! 0))))"

function solve_loop_fl ::
  "float_ops \<Rightarrow> int \<Rightarrow> int \<Rightarrow> flsolver \<Rightarrow> (solver_error + fl_solve_result) \<times> flsolver" where
  "solve_loop_fl ops max_iterations iteration s =
     (if iteration < max_iterations then
        (case get_entering_variable_fl s of
           None \<Rightarrow>
             (let (sol, obj) = extract_solution_fl s
              in (Inr (FOptimal sol obj iteration),
                  s\<lparr>fl_solution := Some sol, fl_objective_value := Some obj\<rparr>))
         | Some entering_idx \<Rightarrow>
             (case get_leaving_variable_fl ops s entering_idx of
                Inl err \<Rightarrow> (Inl err, s)
              | Inr None \<Rightarrow> (Inr (FUnbounded iteration), s)
              | Inr (Some leaving_idx) \<Rightarrow>
                  solve_loop_fl ops max_iterations (iteration + 1)
                    (pivot_fl ops s entering_idx leaving_idx)))
      else (Inr (FIterationLimit max_iterations), s))"
  by pat_completeness auto
termination
  by (relation "measure (\<lambda>(ops, max_iterations, iteration, s). nat (max_iterations - iteration))")
     auto

declare solve_loop_fl.simps [simp del]

definition setup_flsolver :: "flsolver \<Rightarrow> fl list \<Rightarrow> fl list list \<Rightarrow> fl list \<Rightarrow> flsolver" where
  \<comment> \<open>the part of \<open>solve\<close> before the loop; \<open>A_std.shape[1]\<close> is the length of \<open>c_std\<close>\<close>
  "setup_flsolver s c A b =
     (let s1 = s\<lparr>fl_num_constraints := length A\<rparr>;
          (c_std, A_std, b_std) = standard_form_fl c A b;
          s2 = s1\<lparr>fl_num_variables := length c_std\<rparr>;
          s3 = s2\<lparr>fl_tableau := create_initial_tableau_fl c_std A_std b_std\<rparr>
      in s3\<lparr>fl_basis := initialize_basis_fl s3\<rparr>)"

definition solve_fl ::
  "float_ops \<Rightarrow> flsolver \<Rightarrow> fl list \<Rightarrow> fl list list \<Rightarrow> fl list \<Rightarrow> int
     \<Rightarrow> (solver_error + fl_solve_result) \<times> flsolver" where
  "solve_fl ops s c A b max_iterations =
     solve_loop_fl ops max_iterations 0 (setup_flsolver s c A b)"

definition next_state_fl :: "float_ops \<Rightarrow> flsolver \<Rightarrow> flsolver option" where
  \<comment> \<open>the state at the start of the next iteration, when the loop body reaches the pivot\<close>
  "next_state_fl ops s =
     (case get_entering_variable_fl s of
        None \<Rightarrow> None
      | Some entering_idx \<Rightarrow>
          (case get_leaving_variable_fl ops s entering_idx of
             Inr (Some leaving_idx) \<Rightarrow> Some (pivot_fl ops s entering_idx leaving_idx)
           | _ \<Rightarrow> None))"

fun iterate_loop_fl :: "float_ops \<Rightarrow> nat \<Rightarrow> flsolver \<Rightarrow> flsolver option" where
  "iterate_loop_fl ops 0 s = Some s"
| "iterate_loop_fl ops (Suc k) s =
     (case next_state_fl ops s of None \<Rightarrow> None | Some s' \<Rightarrow> iterate_loop_fl ops k s')"

subsection \<open>Predicates on binary64 tableaux\<close>

definition candidate_fl :: "flsolver \<Rightarrow> nat \<Rightarrow> nat \<Rightarrow> bool" where
  "candidate_fl s j i \<longleftrightarrow> fl_lt (Finite eps64) (fl_tableau s ! (i + 1) ! j)"

definition ratio_fl :: "float_ops \<Rightarrow> flsolver \<Rightarrow> nat \<Rightarrow> nat \<Rightarrow> fl" where
  \<comment> \<open>the quotient the code computes for constraint \<open>i\<close>\<close>
  "ratio_fl ops s j i = fdiv ops (last (fl_tableau s ! (i + 1))) (fl_tableau s ! (i + 1) ! j)"

definition finite_nonneg :: "fl \<Rightarrow> bool" where
  "finite_nonneg r \<longleftrightarrow> fl_le (Finite 0) r \<and> r \<noteq> PosInf"

definition is_min_ratio_row_fl :: "float_ops \<Rightarrow> flsolver \<Rightarrow> nat \<Rightarrow> nat \<Rightarrow> bool" where
  \<comment> \<open>the specification's rule: the candidate of least ratio, the smallest index among ties\<close>
  "is_min_ratio_row_fl ops s j l \<longleftrightarrow>
     l < length (fl_tableau s) - 1 \<and> candidate_fl s j l \<and>
     list_all (\<lambda>i. candidate_fl s j i \<longrightarrow>
                  fl_le (ratio_fl ops s j l) (ratio_fl ops s j i) \<and>
                  (fl_le (ratio_fl ops s j i) (ratio_fl ops s j l) \<longrightarrow> l \<le> i))
              [0..<length (fl_tableau s) - 1]"

definition is_min_nonneg_ratio_row_fl :: "float_ops \<Rightarrow> flsolver \<Rightarrow> nat \<Rightarrow> nat \<Rightarrow> bool" where
  \<comment> \<open>the same rule over the candidates whose ratio is not negative\<close>
  "is_min_nonneg_ratio_row_fl ops s j l \<longleftrightarrow>
     l < length (fl_tableau s) - 1 \<and> candidate_fl s j l \<and>
     fl_le (Finite 0) (ratio_fl ops s j l) \<and>
     list_all (\<lambda>i. candidate_fl s j i \<and> fl_le (Finite 0) (ratio_fl ops s j i) \<longrightarrow>
                  fl_le (ratio_fl ops s j l) (ratio_fl ops s j i) \<and>
                  (fl_le (ratio_fl ops s j i) (ratio_fl ops s j l) \<longrightarrow> l \<le> i))
              [0..<length (fl_tableau s) - 1]"

definition rhs_nonneg_fl :: "flsolver \<Rightarrow> bool" where
  "rhs_nonneg_fl s \<longleftrightarrow> list_all (\<lambda>row. fl_le (Finite 0) (last row)) (tl (fl_tableau s))"

section \<open>Results\<close>

subsection \<open>Scenario 2\<close>

text \<open>
  C1. For maximize x subject to x \<le> 5 (\<open>c = [1]\<close>, \<open>A = [[1]]\<close>, \<open>b = [5]\<close>, 1000 iterations
  allowed) the solver stops after one pivot with the status optimal and x = 5, but the
  objective value it returns is -5, while c.x = 5 at the solution returned: row 0 holds the
  objective with its true sign after the pivot, and \<open>extract_solution\<close> negates it.
\<close>

theorem solve_scenario2_objective_sign:
  "fst (solve new_solver [1] [[1]] [5] 1000) = Inr (Optimal [5] (- 5) 1) \<and> dot [1] [5] = 5"
  by (simp add: dot_def solve_def setup_solver_def standard_form_def create_initial_tableau_def
      initialize_basis_def new_solver_def eye_row_def solve_loop.simps get_entering_variable_def
      get_leaving_variable_def ratios_of_def pivot_def row_update_def extract_solution_def
      eps_def isclose_def enumerate_eq_zip upt_rec Let_def)

subsection \<open>The entering rule and the shape of the loop\<close>

lemma eps_pos: "0 < eps" by (simp add: eps_def)

lemma entering_test: "(coeff < - eps \<and> \<not> isclose coeff 0 eps) = (coeff < - eps)"
  using eps_pos by (auto simp: isclose_def)

lemma first_negative_None: "(first_negative j xs = None) = (\<forall>x\<in>set xs. - eps \<le> x)"
  by (induction xs arbitrary: j) (auto simp: entering_test simp del: isclose_def)

lemma first_negative_Some:
  "first_negative j xs = Some k \<Longrightarrow>
     j \<le> k \<and> k - j < length xs \<and> xs ! (k - j) < - eps \<and> (\<forall>i < k - j. - eps \<le> xs ! i)"
proof (induction xs arbitrary: j)
  case Nil
  then show ?case by simp
next
  case (Cons x xs)
  show ?case
  proof (cases "x < - eps")
    case True
    then have "\<not> isclose x 0 eps" using entering_test [of x] by simp
    with True Cons.prems show ?thesis by simp
  next
    case False
    with Cons.prems have rec: "first_negative (Suc j) xs = Some k" by simp
    from Cons.IH [OF rec] have a: "Suc j \<le> k" and b: "k - Suc j < length xs"
      and c: "xs ! (k - Suc j) < - eps" and d: "\<forall>i < k - Suc j. - eps \<le> xs ! i" by auto
    from a have e: "k - j = Suc (k - Suc j)" by simp
    show ?thesis using a b c d False unfolding e
      by (auto simp: nth_Cons split: nat.splits)
  qed
qed

lemma get_entering_None:
  "(get_entering_variable s = None) = (\<forall>x\<in>set (butlast (tableau s ! 0)). - eps \<le> x)"
  by (simp add: get_entering_variable_def Let_def first_negative_None list_all_iff)

lemma get_entering_Some:
  assumes "get_entering_variable s = Some j"
  shows "j < length (butlast (tableau s ! 0)) \<and> butlast (tableau s ! 0) ! j < - eps \<and>
         (\<forall>i<j. - eps \<le> butlast (tableau s ! 0) ! i)"
proof -
  from assms have "first_negative 0 (butlast (tableau s ! 0)) = Some j"
    by (simp add: get_entering_variable_def Let_def split: if_splits)
  from first_negative_Some [OF this] show ?thesis by simp
qed

lemma solve_loop_limit: "\<not> it < mx \<Longrightarrow> solve_loop mx it s = (Inr (IterationLimit mx), s)"
  by (simp add: solve_loop.simps)

lemma solve_loop_next:
  "it < mx \<Longrightarrow> next_state s = Some s' \<Longrightarrow> solve_loop mx it s = solve_loop mx (it + 1) s'"
  by (subst solve_loop.simps)
     (auto simp: next_state_def split: option.splits sum.splits)

lemma solve_loop_iterate:
  "iterate_loop k s = Some sk \<Longrightarrow> it + int k \<le> mx \<Longrightarrow>
     solve_loop mx it s = solve_loop mx (it + int k) sk"
proof (induction k arbitrary: s it)
  case 0
  then show ?case by simp
next
  case (Suc k)
  from Suc.prems(1) obtain s' where n: "next_state s = Some s'" and r: "iterate_loop k s' = Some sk"
    by (auto split: option.splits)
  from Suc.prems(2) have lt: "it < mx" and le: "(it + 1) + int k \<le> mx" by auto
  have "solve_loop mx it s = solve_loop mx (it + 1) s'" by (rule solve_loop_next [OF lt n])
  also have "\<dots> = solve_loop mx ((it + 1) + int k) sk" by (rule Suc.IH [OF r le])
  finally show ?case by (simp add: add.assoc)
qed

subsection \<open>Outcomes of the loop\<close>

lemma solve_loop_stop:
  assumes "it < mx" and "next_state s = None"
  shows "solve_loop mx it s =
     (case get_entering_variable s of
        None \<Rightarrow> (Inr (Optimal (fst (extract_solution s)) (snd (extract_solution s)) it),
                 s\<lparr>solution := Some (fst (extract_solution s)),
                   objective_value := Some (snd (extract_solution s))\<rparr>)
      | Some e \<Rightarrow>
          (case get_leaving_variable s e of
             Inl err \<Rightarrow> (Inl err, s)
           | Inr None \<Rightarrow> (Inr (Unbounded it), s)
           | Inr (Some l) \<Rightarrow> (Inl NonFinite, s)))"
  using assms
  by (subst solve_loop.simps)
     (auto simp: next_state_def case_prod_beta split: option.splits sum.splits)

lemma solve_loop_optimal:
  "solve_loop mx it s = (Inr (Optimal sol obj k), sf) \<Longrightarrow>
     \<exists>j sk. k = it + int j \<and> k < mx \<and> iterate_loop j s = Some sk \<and>
            get_entering_variable sk = None \<and> extract_solution sk = (sol, obj) \<and>
            sf = sk\<lparr>solution := Some sol, objective_value := Some obj\<rparr>"
proof (induction "nat (mx - it)" arbitrary: it s)
  case 0
  then have "\<not> it < mx" by simp
  with "0.prems" show ?case by (simp add: solve_loop_limit)
next
  case (Suc n)
  then have lt: "it < mx" by simp
  show ?case
  proof (cases "next_state s")
    case None
    from Suc.prems lt show ?thesis
      unfolding solve_loop_stop [OF lt None]
      by (auto split: option.splits sum.splits intro!: exI [of _ "0::nat"])
  next
    case (Some s')
    from Suc.hyps(2) have m: "n = nat (mx - (it + 1))" by simp
    from Suc.prems have "solve_loop mx (it + 1) s' = (Inr (Optimal sol obj k), sf)"
      by (simp add: solve_loop_next [OF lt Some])
    from Suc.hyps(1) [OF m this] obtain j sk where
      "k = it + 1 + int j" "k < mx" "iterate_loop j s' = Some sk"
      "get_entering_variable sk = None" "extract_solution sk = (sol, obj)"
      "sf = sk\<lparr>solution := Some sol, objective_value := Some obj\<rparr>" by blast
    then show ?thesis using Some
      by (intro exI [of _ "Suc j"] exI [of _ sk]) simp
  qed
qed

lemma solve_loop_unbounded:
  "solve_loop mx it s = (Inr (Unbounded k), sf) \<Longrightarrow>
     \<exists>j e. k = it + int j \<and> k < mx \<and> iterate_loop j s = Some sf \<and>
           get_entering_variable sf = Some e \<and> get_leaving_variable sf e = Inr None"
proof (induction "nat (mx - it)" arbitrary: it s)
  case 0
  then have "\<not> it < mx" by simp
  with "0.prems" show ?case by (simp add: solve_loop_limit)
next
  case (Suc n)
  then have lt: "it < mx" by simp
  show ?case
  proof (cases "next_state s")
    case None
    from Suc.prems lt show ?thesis
      unfolding solve_loop_stop [OF lt None]
      by (auto split: option.splits sum.splits intro!: exI [of _ "0::nat"])
  next
    case (Some s')
    from Suc.hyps(2) have m: "n = nat (mx - (it + 1))" by simp
    from Suc.prems have "solve_loop mx (it + 1) s' = (Inr (Unbounded k), sf)"
      by (simp add: solve_loop_next [OF lt Some])
    from Suc.hyps(1) [OF m this] obtain j e where
      "k = it + 1 + int j" "k < mx" "iterate_loop j s' = Some sf"
      "get_entering_variable sf = Some e" "get_leaving_variable sf e = Inr None" by blast
    then show ?thesis using Some
      by (intro exI [of _ "Suc j"] exI [of _ e]) simp
  qed
qed

lemma solve_loop_iteration_limit:
  "solve_loop mx it s = (Inr (IterationLimit k), sf) \<Longrightarrow> it \<le> mx \<Longrightarrow>
     k = mx \<and> iterate_loop (nat (mx - it)) s = Some sf"
proof (induction "nat (mx - it)" arbitrary: it s)
  case 0
  then have "\<not> it < mx" by simp
  with "0.prems" "0.hyps" show ?case by (simp add: solve_loop_limit)
next
  case (Suc n)
  then have lt: "it < mx" by simp
  show ?case
  proof (cases "next_state s")
    case None
    from Suc.prems show ?thesis
      unfolding solve_loop_stop [OF lt None]
      by (auto split: option.splits sum.splits)
  next
    case (Some s')
    from Suc.hyps(2) have m: "n = nat (mx - (it + 1))" by simp
    from Suc.prems have "solve_loop mx (it + 1) s' = (Inr (IterationLimit k), sf)"
      by (simp add: solve_loop_next [OF lt Some])
    from Suc.hyps(1) [OF m this] lt have "k = mx" "iterate_loop n s' = Some sf"
      using m by auto
    then show ?thesis using Some Suc.hyps(2) [symmetric] by simp
  qed
qed

subsection \<open>The fields the loop reads\<close>

lemma get_entering_ignores_results:
  "get_entering_variable (s\<lparr>solution := x, objective_value := y\<rparr>) = get_entering_variable s"
  by (simp add: get_entering_variable_def)

lemma get_leaving_ignores_results:
  "get_leaving_variable (s\<lparr>solution := x, objective_value := y\<rparr>) e = get_leaving_variable s e"
  by (simp add: get_leaving_variable_def)

lemma pivot_ignores_results:
  "pivot (s\<lparr>solution := x, objective_value := y\<rparr>) e l =
     map_option (\<lambda>s'. s'\<lparr>solution := x, objective_value := y\<rparr>) (pivot s e l)"
  by (simp add: pivot_def Let_def)

lemma extract_ignores_results:
  "extract_solution (s\<lparr>solution := x, objective_value := y\<rparr>) = extract_solution s"
  by (simp add: extract_solution_def case_prod_beta Let_def cong: if_cong)

lemma next_state_ignores_results:
  "next_state (s\<lparr>solution := x, objective_value := y\<rparr>) =
     map_option (\<lambda>s'. s'\<lparr>solution := x, objective_value := y\<rparr>) (next_state s)"
  by (simp add: next_state_def get_entering_ignores_results get_leaving_ignores_results
      pivot_ignores_results split: option.splits sum.splits)

lemma solve_loop_ignores_results:
  "fst (solve_loop mx it (s\<lparr>solution := x, objective_value := y\<rparr>)) = fst (solve_loop mx it s)"
proof (induction "nat (mx - it)" arbitrary: it s)
  case 0
  then have "\<not> it < mx" by simp
  then show ?case by (simp add: solve_loop_limit)
next
  case (Suc n)
  then have lt: "it < mx" by simp
  show ?case
  proof (cases "next_state s")
    case None
    then have n': "next_state (s\<lparr>solution := x, objective_value := y\<rparr>) = None"
      by (simp add: next_state_ignores_results)
    show ?thesis
      unfolding solve_loop_stop [OF lt None] solve_loop_stop [OF lt n']
      by (simp add: get_entering_ignores_results get_leaving_ignores_results
          extract_ignores_results split: option.splits sum.splits)
  next
    case (Some s')
    then have n': "next_state (s\<lparr>solution := x, objective_value := y\<rparr>) =
        Some (s'\<lparr>solution := x, objective_value := y\<rparr>)"
      by (simp add: next_state_ignores_results)
    from Suc.hyps(2) have m: "n = nat (mx - (it + 1))" by simp
    show ?thesis
      unfolding solve_loop_next [OF lt Some] solve_loop_next [OF lt n']
      by (rule Suc.hyps(1) [OF m])
  qed
qed

lemma setup_solver_core:
  "setup_solver s c A b =
     (setup_solver t c A b)\<lparr>solution := solution s, objective_value := objective_value s\<rparr>"
  by (simp add: setup_solver_def Let_def standard_form_def initialize_basis_def)

lemma solve_ignores_instance: "fst (solve s c A b mx) = fst (solve t c A b mx)"
  unfolding solve_def
  by (subst setup_solver_core [of s c A b t]) (rule solve_loop_ignores_results)

subsection \<open>Evaluation on concrete inputs\<close>

lemmas solver_eval =
  solve_def setup_solver_def standard_form_def create_initial_tableau_def
  initialize_basis_def new_solver_def eye_row_def solve_loop.simps get_entering_variable_def
  get_leaving_variable_def ratios_of_def pivot_def row_update_def extract_solution_def
  next_state_def eps_def isclose_def enumerate_eq_zip upt_rec Let_def

lemma next_state_keeps_results:
  "next_state s = Some s' \<Longrightarrow> solution s' = solution s \<and> objective_value s' = objective_value s"
  by (auto simp: next_state_def pivot_def Let_def split: option.splits sum.splits if_splits)

lemma iterate_loop_keeps_results:
  "iterate_loop k s = Some s' \<Longrightarrow> solution s' = solution s \<and> objective_value s' = objective_value s"
proof (induction k arbitrary: s)
  case 0
  then show ?case by simp
next
  case (Suc k)
  then obtain s1 where a: "next_state s = Some s1" and b: "iterate_loop k s1 = Some s'"
    by (auto split: option.splits)
  from Suc.IH [OF b] next_state_keeps_results [OF a] show ?case by simp
qed

lemma setup_solver_keeps_results:
  "solution (setup_solver s c A b) = solution s \<and>
   objective_value (setup_solver s c A b) = objective_value s"
  by (simp add: setup_solver_def standard_form_def Let_def)

lemma objective_row_nth:
  "j < length row - 1 \<Longrightarrow> butlast row ! j = row ! j"
  by (simp add: nth_butlast)

subsection \<open>Determinism\<close>

text \<open>
  C9. The result of \<open>solve\<close> (status, iteration count, solution and objective value) is a
  function of \<open>c\<close>, \<open>A\<close>, \<open>b\<close> and \<open>max_iterations\<close> alone: it does not depend on the fields the
  solver instance holds when \<open>solve\<close> is called. In particular a second call on the same
  instance, in the state the first call left, returns the result of the first.
\<close>

theorem solve_deterministic:
  "fst (solve s c A b mx) = fst (solve t c A b mx) \<and>
   fst (solve (snd (solve s c A b mx)) c A b mx) = fst (solve s c A b mx)"
  using solve_ignores_instance by blast

theorem solve_deterministic_witness:
  "fst (solve (snd (solve new_solver [1] [[1]] [5] 1000)) [1] [[1]] [5] 1000) =
     Inr (Optimal [5] (- 5) 1)"
proof -
  have "fst (solve new_solver [1] [[1]] [5] 1000) = Inr (Optimal [5] (- 5) 1)"
    by (simp add: solver_eval)
  with solve_deterministic [of new_solver "[1]" "[[1]]" "[5]" 1000] show ?thesis by simp
qed

subsection \<open>The minimum-ratio test\<close>

lemma ratio_less_irrefl: "\<not> ratio_less a a"
  by (cases a) auto

lemma ratio_less_trans: "ratio_less a b \<Longrightarrow> ratio_less b c \<Longrightarrow> ratio_less a c"
  by (cases a; cases b; cases c) auto

lemma ratio_not_less_trans: "\<not> ratio_less b a \<Longrightarrow> \<not> ratio_less c b \<Longrightarrow> \<not> ratio_less c a"
  by (cases a; cases b; cases c) auto

lemma ratio_less_total: "\<not> ratio_less a b \<Longrightarrow> \<not> ratio_less b a \<Longrightarrow> a = b"
  by (cases a; cases b) auto

lemma running_min_first:
  assumes "sorted_wrt (<) (map snd (x # xs))"
  defines "step \<equiv> \<lambda>best y. if ratio_less (fst y) (fst best) then y else (best :: ratio \<times> nat)"
  shows "foldl step x xs \<in> set (x # xs) \<and>
         (\<forall>z\<in>set (x # xs). \<not> ratio_less (fst z) (fst (foldl step x xs)) \<and>
            (fst z = fst (foldl step x xs) \<longrightarrow> snd (foldl step x xs) \<le> snd z))"
  using assms(1)
proof (induction xs arbitrary: x)
  case Nil
  then show ?case by (simp add: ratio_less_irrefl)
next
  case (Cons y ys)
  show ?case
  proof (cases "ratio_less (fst y) (fst x)")
    case True
    let ?r = "foldl step y ys"
    have f: "foldl step x (y # ys) = ?r" using True by (simp add: step_def)
    from Cons.prems have "sorted_wrt (<) (map snd (y # ys))" by simp
    from Cons.IH [OF this] have mem: "?r \<in> set (y # ys)"
      and least: "\<forall>z\<in>set (y # ys). \<not> ratio_less (fst z) (fst ?r) \<and> (fst z = fst ?r \<longrightarrow> snd ?r \<le> snd z)"
      by blast+
    from least have ny: "\<not> ratio_less (fst y) (fst ?r)" by simp
    have nx: "\<not> ratio_less (fst x) (fst ?r)"
      using ny True ratio_less_trans by blast
    have tx: "fst x \<noteq> fst ?r" using ny True by auto
    show ?thesis unfolding f using mem least nx tx by auto
  next
    case False
    let ?r = "foldl step x ys"
    have f: "foldl step x (y # ys) = ?r" using False by (simp add: step_def)
    from Cons.prems have s: "sorted_wrt (<) (map snd (x # ys))" and xy: "snd x < snd y" by auto
    from Cons.IH [OF s] have mem: "?r \<in> set (x # ys)"
      and least: "\<forall>z\<in>set (x # ys). \<not> ratio_less (fst z) (fst ?r) \<and> (fst z = fst ?r \<longrightarrow> snd ?r \<le> snd z)"
      by blast+
    from least have nx: "\<not> ratio_less (fst x) (fst ?r)"
      and tx: "fst x = fst ?r \<longrightarrow> snd ?r \<le> snd x" by simp_all
    have ny: "\<not> ratio_less (fst y) (fst ?r)"
      using ratio_not_less_trans [OF nx False] .
    have ty: "fst y = fst ?r \<longrightarrow> snd ?r \<le> snd y"
    proof
      assume e: "fst y = fst ?r"
      with False have "\<not> ratio_less (fst ?r) (fst x)" by simp
      from ratio_less_total [OF nx this] tx xy show "snd ?r \<le> snd y" by simp
    qed
    show ?thesis unfolding f using mem least ny ty by auto
  qed
qed

lemma min_by_ratio_first:
  assumes "sorted_wrt (<) (map snd rs)" and "min_by_ratio rs = Some r"
  shows "r \<in> set rs \<and>
         (\<forall>z\<in>set rs. \<not> ratio_less (fst z) (fst r) \<and> (fst z = fst r \<longrightarrow> snd r \<le> snd z))"
proof (cases rs)
  case Nil
  with assms(2) show ?thesis by simp
next
  case (Cons x xs)
  with assms(2) have r: "r = foldl (\<lambda>best y. if ratio_less (fst y) (fst best) then y else best) x xs"
    by simp
  from running_min_first [OF assms(1) [unfolded Cons]] show ?thesis
    unfolding Cons r by simp
qed


lemma ratios_sorted:
  "sorted_wrt (<) (map snd (filter P (ratios_of column b)))"
proof -
  have "map snd (ratios_of column b) = [0..<length b]"
    by (auto simp: ratios_of_def intro!: nth_equalityI)
  then have "sorted_wrt (<) (map snd (ratios_of column b))" by simp
  then have "sorted_wrt (\<lambda>x y. snd x < snd y) (ratios_of column b)"
    by (simp add: sorted_wrt_map)
  then have "sorted_wrt (\<lambda>x y. snd x < snd y) (filter P (ratios_of column b))"
    by (rule sorted_wrt_filter)
  then show ?thesis by (simp add: sorted_wrt_map)
qed


lemma tableau_column_nth:
  "i < length T - 1 \<Longrightarrow> map (\<lambda>row. row ! e) (tl T) ! i = T ! (i + 1) ! e"
  by (simp add: nth_tl)

lemma tableau_rhs_nth:
  "i < length T - 1 \<Longrightarrow> map last (tl T) ! i = last (T ! (i + 1))"
  by (simp add: nth_tl)


lemma ratio_entry:
  "(r, i) \<in> set (filter (\<lambda>r. ratio_nonneg (fst r))
       (ratios_of (map (\<lambda>row. row ! e) (tl (tableau s))) (map last (tl (tableau s))))) \<longleftrightarrow>
   i < length (tableau s) - 1 \<and> ratio_nonneg r \<and>
   r = (if candidate s e i then Fin (row_ratio s e i) else PInf)"
  by (auto simp: ratios_of_def candidate_def row_ratio_def nth_tl)



lemma get_leaving_bound:
  assumes "get_leaving_variable s e = Inr (Some l)"
  shows "l < length (tableau s) - 1"
proof -
  let ?F = "filter (\<lambda>r. ratio_nonneg (fst r))
       (ratios_of (map (\<lambda>row. row ! e) (tl (tableau s))) (map last (tl (tableau s))))"
  from assms obtain r where m: "min_by_ratio ?F = Some (r, l)"
    by (auto simp: get_leaving_variable_def Let_def split: if_splits option.splits)
  from min_by_ratio_first [OF ratios_sorted m] have "(r, l) \<in> set ?F" by (rule conjunct1)
  then show ?thesis unfolding ratio_entry by simp
qed



subsection \<open>The standard-form step\<close>














subsection \<open>The tableau after a pivot\<close>

lemma row_update_length: "length (row_update pr e T i) = length T"
  by (simp add: row_update_def)

lemma row_updates_prefix:
  assumes "k \<le> length T" and "pr < length T"
  shows "length (foldl (row_update pr e) T [0..<k]) = length T \<and>
         (\<forall>i < length T. foldl (row_update pr e) T [0..<k] ! i =
            (if i < k \<and> i \<noteq> pr
             then map2 (\<lambda>x p. x - (T ! i ! e) * p) (T ! i) (T ! pr) else T ! i))"
  using assms
proof (induction k)
  case 0
  then show ?case by simp
next
  case (Suc k)
  let ?R = "foldl (row_update pr e) T [0..<k]"
  from Suc have len: "length ?R = length T"
    and rows: "\<forall>i < length T. ?R ! i =
            (if i < k \<and> i \<noteq> pr
             then map2 (\<lambda>x p. x - (T ! i ! e) * p) (T ! i) (T ! pr) else T ! i)"
    by simp_all
  from Suc.prems have k: "k < length T" by simp
  from rows k have Rk: "?R ! k = T ! k" by simp
  from rows Suc.prems(2) have Rp: "?R ! pr = T ! pr" by simp
  have step: "foldl (row_update pr e) T [0..<Suc k] = row_update pr e ?R k" by simp
  show ?case
  proof (cases "k = pr")
    case True
    then show ?thesis unfolding step using len rows
      by (auto simp: row_update_def)
  next
    case False
    have "row_update pr e ?R k = ?R[k := map2 (\<lambda>x p. x - (T ! k ! e) * p) (T ! k) (T ! pr)]"
      using False by (simp add: row_update_def Rk Rp)
    then show ?thesis unfolding step using len rows k False
      by (auto simp: nth_list_update less_Suc_eq)
  qed
qed

lemma row_updates_all:
  assumes "pr < length T" and "i < length T"
  shows "foldl (row_update pr e) T [0..<length T] ! i =
           (if i \<noteq> pr then map2 (\<lambda>x p. x - (T ! i ! e) * p) (T ! i) (T ! pr) else T ! i)"
  using row_updates_prefix [of "length T" T pr e] assms by simp

lemma row_updates_length:
  "pr < length T \<Longrightarrow> length (foldl (row_update pr e) T [0..<length T]) = length T"
  using row_updates_prefix [of "length T" T pr e] by simp

lemma wf_state_row:
  "wf_state s \<Longrightarrow> i \<le> num_constraints s \<Longrightarrow> length (tableau s ! i) = num_variables s + 1"
  by (simp add: wf_state_def list_all_length)

lemma pivot_Some:
  assumes "pivot s e l = Some s'"
  shows "tableau s ! (l + 1) ! e \<noteq> 0"
    and "basis s' = (basis s)[l := e]"
    and "num_variables s' = num_variables s"
    and "num_constraints s' = num_constraints s"
    and "tableau s' =
       foldl (row_update (l + 1) e)
         ((tableau s)[l + 1 := map (\<lambda>x. x / tableau s ! (l + 1) ! e) (tableau s ! (l + 1))])
         [0..<length (tableau s)]"
  using assms by (auto simp: pivot_def Let_def split: if_splits)

lemma pivot_tableau_length:
  assumes "pivot s e l = Some s'" and "wf_state s" and "l < num_constraints s"
  shows "length (tableau s') = length (tableau s)"
proof -
  let ?T1 = "(tableau s)[l + 1 := map (\<lambda>x. x / tableau s ! (l + 1) ! e) (tableau s ! (l + 1))]"
  from assms(2,3) have "l + 1 < length ?T1" by (simp add: wf_state_def)
  from row_updates_length [OF this, of e] pivot_Some(5) [OF assms(1)] show ?thesis by simp
qed

lemma pivot_tableau_row:
  assumes p: "pivot s e l = Some s'" and wf: "wf_state s" and l: "l < num_constraints s"
    and i: "i \<le> num_constraints s"
  shows "tableau s' ! i =
     (if i = l + 1 then map (\<lambda>x. x / tableau s ! (l + 1) ! e) (tableau s ! (l + 1))
      else map2 (\<lambda>x p. x - (tableau s ! i ! e) * p) (tableau s ! i)
             (map (\<lambda>x. x / tableau s ! (l + 1) ! e) (tableau s ! (l + 1))))"
proof -
  let ?T1 = "(tableau s)[l + 1 := map (\<lambda>x. x / tableau s ! (l + 1) ! e) (tableau s ! (l + 1))]"
  from wf l have pr: "l + 1 < length ?T1" by (simp add: wf_state_def)
  from wf i have il: "i < length ?T1" by (simp add: wf_state_def)
  have "tableau s' ! i = foldl (row_update (l + 1) e) ?T1 [0..<length ?T1] ! i"
    using pivot_Some(5) [OF p] by simp
  also have "\<dots> = (if i \<noteq> l + 1
      then map2 (\<lambda>x p. x - (?T1 ! i ! e) * p) (?T1 ! i) (?T1 ! (l + 1)) else ?T1 ! i)"
    by (rule row_updates_all [OF pr il])
  finally show ?thesis using pr il by (auto simp: nth_list_update)
qed

lemma pivot_tableau_entry:
  assumes p: "pivot s e l = Some s'" and wf: "wf_state s" and l: "l < num_constraints s"
    and i: "i \<le> num_constraints s" and k: "k \<le> num_variables s"
  shows "tableau s' ! i ! k =
     (if i = l + 1 then tableau s ! (l + 1) ! k / tableau s ! (l + 1) ! e
      else tableau s ! i ! k -
             tableau s ! i ! e * (tableau s ! (l + 1) ! k / tableau s ! (l + 1) ! e))"
proof -
  from wf_state_row [OF wf i] k have ki: "k < length (tableau s ! i)" by simp
  from l have "l + 1 \<le> num_constraints s" by simp
  from wf_state_row [OF wf this] k have kl: "k < length (tableau s ! (l + 1))" by simp
  show ?thesis unfolding pivot_tableau_row [OF p wf l i] using ki kl by simp
qed

lemma pivot_wf_state:
  assumes p: "pivot s e l = Some s'" and wf: "wf_state s" and l: "l < num_constraints s"
    and e: "e < num_variables s"
  shows "wf_state s'"
proof -
  have rows: "length (tableau s' ! i) = num_variables s + 1" if "i \<le> num_constraints s" for i
  proof -
    from l have "l + 1 \<le> num_constraints s" by simp
    from wf_state_row [OF wf this] wf_state_row [OF wf that] show ?thesis
      unfolding pivot_tableau_row [OF p wf l that] by simp
  qed
  have len: "length (tableau s') = num_constraints s + 1"
    using pivot_tableau_length [OF p wf l] wf by (simp add: wf_state_def)
  have "list_all (\<lambda>row. length row = num_variables s + 1) (tableau s')"
    unfolding list_all_length using rows len by simp
  moreover have "list_all (\<lambda>v. v < num_variables s) ((basis s)[l := e])"
    using wf e unfolding wf_state_def list_all_iff by (auto dest: set_update_subset_insert [THEN subsetD])
  ultimately show ?thesis
    using wf len pivot_Some(2-4) [OF p] by (simp add: wf_state_def)
qed

subsection \<open>The basis invariant\<close>

lemma basis_invariant_iff:
  "basis_invariant s \<longleftrightarrow>
     (\<forall>i < length (basis s). \<forall>k < length (basis s).
        tableau s ! (k + 1) ! (basis s ! i) = (if k = i then 1 else 0))"
  by (auto simp: basis_invariant_def list_all_iff)

lemma pivot_basis_invariant:
  assumes p: "pivot s e l = Some s'" and wf: "wf_state s" and inv: "basis_invariant s"
    and l: "l < num_constraints s" and e: "e < num_variables s"
  shows "basis_invariant s'"
  unfolding basis_invariant_iff
proof (intro allI impI)
  fix i k
  assume "i < length (basis s')" and "k < length (basis s')"
  with pivot_Some(2) [OF p] wf have i: "i < num_constraints s" and k: "k < num_constraints s"
    by (simp_all add: wf_state_def)
  from wf have m: "length (basis s) = num_constraints s" by (simp add: wf_state_def)
  from k have k1: "k + 1 \<le> num_constraints s" by simp
  note pe = pivot_Some(1) [OF p]
  show "tableau s' ! (k + 1) ! (basis s' ! i) = (if k = i then 1 else 0)"
  proof (cases "i = l")
    case True
    then have b: "basis s' ! i = e" using pivot_Some(2) [OF p] l m by simp
    from e have e': "e \<le> num_variables s" by simp
    show ?thesis unfolding b pivot_tableau_entry [OF p wf l k1 e']
      using pe \<open>i = l\<close> by auto
  next
    case False
    then have b: "basis s' ! i = basis s ! i" using pivot_Some(2) [OF p] by simp
    from wf i m have v: "basis s ! i \<le> num_variables s"
      by (auto simp: wf_state_def list_all_length less_imp_le)
    from inv i l m False have z: "tableau s ! (l + 1) ! (basis s ! i) = 0"
      by (simp add: basis_invariant_iff)
    from inv i k m have d: "tableau s ! (k + 1) ! (basis s ! i) = (if k = i then 1 else 0)"
      by (simp add: basis_invariant_iff)
    show ?thesis unfolding b pivot_tableau_entry [OF p wf l k1 v] z
      using d False by auto
  qed
qed

subsection \<open>The initial state\<close>

lemma setup_solver_fields:
  "num_constraints (setup_solver s c A b) = length A"
  "num_variables (setup_solver s c A b) = length c + length A"
  "basis (setup_solver s c A b) = [length c ..< length c + length A]"
  "tableau (setup_solver s c A b) =
     (map uminus (c @ replicate (length A) 0) @ [0]) #
     map (\<lambda>i. (A ! i @ eye_row (length A) i) @ [b ! i]) [0..<length A]"
  by (simp_all add: setup_solver_def standard_form_def create_initial_tableau_def
      initialize_basis_def Let_def)

lemma setup_solver_row:
  "k < length A \<Longrightarrow>
     tableau (setup_solver s c A b) ! (k + 1) = (A ! k @ eye_row (length A) k) @ [b ! k]"
  by (simp add: setup_solver_fields)

lemma eye_row_nth: "i < m \<Longrightarrow> eye_row m k ! i = (if i = k then 1 else 0)"
  by (simp add: eye_row_def)

lemma setup_solver_wf:
  assumes "wf_problem c A b"
  shows "wf_state (setup_solver s c A b)"
proof -
  from assms have rows: "\<forall>i < length A. length (A ! i) = length c"
    by (simp add: wf_problem_def list_all_length)
  have "list_all (\<lambda>row. length row = length c + length A + 1) (tableau (setup_solver s c A b))"
    unfolding setup_solver_fields using rows
    by (auto simp: list_all_iff eye_row_def)
  moreover have "list_all (\<lambda>v. v < length c + length A) [length c ..< length c + length A]"
    by (simp add: list_all_iff)
  ultimately show ?thesis
    unfolding wf_state_def by (simp add: setup_solver_fields)
qed

lemma setup_solver_basis_invariant:
  assumes "wf_problem c A b"
  shows "basis_invariant (setup_solver s c A b)"
  unfolding basis_invariant_iff
proof (intro allI impI)
  fix i k
  assume "i < length (basis (setup_solver s c A b))" "k < length (basis (setup_solver s c A b))"
  then have i: "i < length A" and k: "k < length A" by (simp_all add: setup_solver_fields)
  from assms k have len: "length (A ! k) = length c"
    by (simp add: wf_problem_def list_all_length)
  have "((A ! k @ eye_row (length A) k) @ [b ! k]) ! (length c + i) = eye_row (length A) k ! i"
    using i len by (simp add: nth_append eye_row_def)
  with i k show "tableau (setup_solver s c A b) ! (k + 1) ! (basis (setup_solver s c A b) ! i) =
      (if k = i then 1 else 0)"
    unfolding setup_solver_row [OF k] by (auto simp: setup_solver_fields eye_row_nth)
qed

lemma setup_solver_objective_row:
  "objective_row_invariant (c @ replicate (length A) 0 @ [0]) (setup_solver s c A b)"
  unfolding objective_row_invariant_def
proof (intro allI impI)
  fix k
  let ?cs = "c @ replicate (length A) 0 @ [0]"
  let ?t = "setup_solver s c A b"
  assume "k \<le> num_variables ?t"
  then have k: "k < length ?cs" by (simp add: setup_solver_fields)
  have zero: "?cs ! (basis ?t ! i) = 0" if "i < num_constraints ?t" for i
    using that by (simp add: setup_solver_fields nth_append)
  have "tableau ?t ! 0 = map uminus ?cs" by (simp add: setup_solver_fields)
  then have "tableau ?t ! 0 ! k = - (?cs ! k)" using k by (simp only: nth_map)
  moreover have "(\<Sum>i<num_constraints ?t. ?cs ! (basis ?t ! i) * tableau ?t ! (i + 1) ! k) = 0"
    using zero by simp
  ultimately show "tableau ?t ! 0 ! k =
      - (?cs ! k) + (\<Sum>i<num_constraints ?t. ?cs ! (basis ?t ! i) * tableau ?t ! (i + 1) ! k)"
    by simp
qed

lemma setup_solver_invariant:
  "wf_problem c A b \<Longrightarrow> loop_invariant c (setup_solver s c A b)"
  unfolding loop_invariant_def
  using setup_solver_wf setup_solver_basis_invariant setup_solver_objective_row [of c A s b]
  by (simp add: setup_solver_fields)

subsection \<open>The objective row after a pivot\<close>

lemma pivot_objective_row:
  assumes p: "pivot s e l = Some s'" and wf: "wf_state s" and l: "l < num_constraints s"
    and e: "e < num_variables s" and inv: "objective_row_invariant cs s"
  shows "objective_row_invariant cs s'"
  unfolding objective_row_invariant_def
proof (intro allI impI)
  fix k
  assume "k \<le> num_variables s'"
  then have k: "k \<le> num_variables s" using pivot_Some(3) [OF p] by simp
  from e have e': "e \<le> num_variables s" by simp
  define T where "T = tableau s"
  define pe where "pe = T ! (l + 1) ! e"
  define r where "r = T ! (l + 1) ! k / pe"
  define S where "S x = (\<Sum>i<num_constraints s. cs ! (basis s ! i) * T ! (i + 1) ! x)" for x
  from wf have m: "length (basis s) = num_constraints s" by (simp add: wf_state_def)
  have pe0: "pe \<noteq> 0" using pivot_Some(1) [OF p] by (simp add: pe_def T_def)
  from inv k have ik: "T ! 0 ! k = - (cs ! k) + S k"
    by (simp add: objective_row_invariant_def S_def T_def)
  from inv e' have ie: "T ! 0 ! e = - (cs ! e) + S e"
    by (simp add: objective_row_invariant_def S_def T_def)
  have row0: "tableau s' ! 0 ! k = T ! 0 ! k - T ! 0 ! e * r"
    using pivot_tableau_entry [OF p wf l _ k, of 0] by (simp add: T_def r_def pe_def)
  have each: "cs ! (basis s' ! i) * tableau s' ! (i + 1) ! k =
      cs ! (basis s ! i) * T ! (i + 1) ! k - r * (cs ! (basis s ! i) * T ! (i + 1) ! e) +
      (if i = l then cs ! e * r else 0)" if "i < num_constraints s" for i
  proof (cases "i = l")
    case True
    have "tableau s' ! (i + 1) ! k = r"
      using pivot_tableau_entry [OF p wf l _ k, of "i + 1"] that True
      by (simp add: T_def r_def pe_def)
    moreover have "basis s' ! i = e" using pivot_Some(2) [OF p] True l m by simp
    moreover have "T ! (i + 1) ! k - r * T ! (i + 1) ! e = 0"
      using True pe0 by (simp add: r_def pe_def)
    then have "cs ! (basis s ! i) * T ! (i + 1) ! k - r * (cs ! (basis s ! i) * T ! (i + 1) ! e) = 0"
      by (simp add: algebra_simps flip: right_diff_distrib)
    ultimately show ?thesis using True by simp
  next
    case False
    have t: "tableau s' ! (i + 1) ! k = T ! (i + 1) ! k - T ! (i + 1) ! e * r"
      using pivot_tableau_entry [OF p wf l _ k, of "i + 1"] that False
      by (simp add: T_def r_def pe_def)
    have b: "basis s' ! i = basis s ! i" using pivot_Some(2) [OF p] False by simp
    show ?thesis unfolding t b using False by (simp add: algebra_simps)
  qed
  have "(\<Sum>i<num_constraints s. cs ! (basis s' ! i) * tableau s' ! (i + 1) ! k) =
      (\<Sum>i<num_constraints s.
         cs ! (basis s ! i) * T ! (i + 1) ! k - r * (cs ! (basis s ! i) * T ! (i + 1) ! e) +
         (if i = l then cs ! e * r else 0))"
    by (rule sum.cong [OF refl], rule each, simp)
  also have "\<dots> = S k - r * S e + cs ! e * r"
    using l by (simp add: sum.distrib sum_subtractf sum_distrib_left S_def)
  finally have sum': "(\<Sum>i<num_constraints s. cs ! (basis s' ! i) * tableau s' ! (i + 1) ! k) =
      S k - r * S e + cs ! e * r" .
  have "tableau s' ! 0 ! k = - (cs ! k) + (S k - r * S e + cs ! e * r)"
    unfolding row0 ik ie by (simp add: algebra_simps)
  then show "tableau s' ! 0 ! k =
      - (cs ! k) + (\<Sum>i<num_constraints s'. cs ! (basis s' ! i) * tableau s' ! (i + 1) ! k)"
    unfolding pivot_Some(4) [OF p] sum' .
qed

subsection \<open>The invariant along the loop\<close>

lemma wf_state_objective_row_length:
  "wf_state s \<Longrightarrow> length (butlast (tableau s ! 0)) = num_variables s"
  using wf_state_row [of s 0] by simp

lemma wf_state_rows: "wf_state s \<Longrightarrow> length (tableau s) - 1 = num_constraints s"
  by (simp add: wf_state_def)

lemma next_state_Some:
  assumes "next_state s = Some s'"
  obtains e l where "get_entering_variable s = Some e"
    and "get_leaving_variable s e = Inr (Some l)" and "pivot s e l = Some s'"
  using assms by (auto simp: next_state_def split: option.splits sum.splits)

lemma entering_in_range:
  "wf_state s \<Longrightarrow> get_entering_variable s = Some e \<Longrightarrow> e < num_variables s"
  using get_entering_Some [of s e] wf_state_objective_row_length [of s] by simp

lemma leaving_in_range:
  "wf_state s \<Longrightarrow> get_leaving_variable s e = Inr (Some l) \<Longrightarrow> l < num_constraints s"
  using get_leaving_bound [of s e l] wf_state_rows [of s] by simp

lemma pivot_loop_invariant:
  assumes "loop_invariant c s" and "pivot s e l = Some s'"
    and "l < num_constraints s" and "e < num_variables s"
  shows "loop_invariant c s'"
  using assms pivot_wf_state [of s e l s'] pivot_basis_invariant [of s e l s']
    pivot_objective_row [of s e l s' "c @ replicate (num_constraints s) 0 @ [0]"]
    pivot_Some(3,4) [of s e l s']
  by (simp add: loop_invariant_def)

lemma next_state_loop_invariant:
  assumes inv: "loop_invariant c s" and n: "next_state s = Some s'"
  shows "loop_invariant c s'"
proof -
  from inv have wf: "wf_state s" by (simp add: loop_invariant_def)
  from n obtain e l where e: "get_entering_variable s = Some e"
    and l: "get_leaving_variable s e = Inr (Some l)" and p: "pivot s e l = Some s'"
    by (rule next_state_Some)
  from pivot_loop_invariant [OF inv p leaving_in_range [OF wf l] entering_in_range [OF wf e]]
  show ?thesis .
qed

lemma iterate_loop_invariant:
  "loop_invariant c s \<Longrightarrow> iterate_loop k s = Some s' \<Longrightarrow> loop_invariant c s'"
proof (induction k arbitrary: s)
  case 0
  then show ?case by simp
next
  case (Suc k)
  from Suc.prems(2) obtain s1 where a: "next_state s = Some s1" and b: "iterate_loop k s1 = Some s'"
    by (auto split: option.splits)
  from Suc.IH [OF next_state_loop_invariant [OF Suc.prems(1) a] b] show ?case .
qed

text \<open>
  C4. In exact arithmetic a completed pivot (the pivot element is not zero) on a rectangular
  tableau divides the pivot row by the pivot element, subtracts from every other row, row 0
  included, its entry in the entering column times the normalised pivot row, and sets
  \<open>basis[leaving_idx] = entering_idx\<close>. It preserves the basis invariant: afterwards the
  column of every \<open>basis[i]\<close> on the rows 1..m is the i-th unit vector. The invariant holds of
  the initial tableau, hence at the start of every iteration of \<open>solve\<close>.
\<close>

theorem pivot_preserves_basis_invariant:
  "(wf_state s \<and> basis_invariant s \<and> l < num_constraints s \<and> j < num_variables s \<and>
    pivot s j l = Some s' \<longrightarrow>
      basis_invariant s' \<and> wf_state s' \<and> basis s' = (basis s)[l := j] \<and>
      (\<forall>i \<le> num_constraints s. \<forall>k \<le> num_variables s.
         tableau s' ! i ! k =
           (if i = l + 1 then tableau s ! (l + 1) ! k / tableau s ! (l + 1) ! j
            else tableau s ! i ! k -
                   tableau s ! i ! j * (tableau s ! (l + 1) ! k / tableau s ! (l + 1) ! j)))) \<and>
   (wf_problem c A b \<and> iterate_loop n (setup_solver s0 c A b) = Some t \<longrightarrow>
      wf_state t \<and> basis_invariant t)"
proof (rule conjI; rule impI)
  assume a: "wf_state s \<and> basis_invariant s \<and> l < num_constraints s \<and> j < num_variables s \<and>
    pivot s j l = Some s'"
  then have wf: "wf_state s" and inv: "basis_invariant s" and l: "l < num_constraints s"
    and j: "j < num_variables s" and p: "pivot s j l = Some s'" by simp_all
  from pivot_basis_invariant [OF p wf inv l j] pivot_wf_state [OF p wf l j]
    pivot_Some(2) [OF p] pivot_tableau_entry [OF p wf l]
  show "basis_invariant s' \<and> wf_state s' \<and> basis s' = (basis s)[l := j] \<and>
      (\<forall>i \<le> num_constraints s. \<forall>k \<le> num_variables s.
         tableau s' ! i ! k =
           (if i = l + 1 then tableau s ! (l + 1) ! k / tableau s ! (l + 1) ! j
            else tableau s ! i ! k -
                   tableau s ! i ! j * (tableau s ! (l + 1) ! k / tableau s ! (l + 1) ! j)))"
    by blast
next
  assume "wf_problem c A b \<and> iterate_loop n (setup_solver s0 c A b) = Some t"
  then have "loop_invariant c t"
    using iterate_loop_invariant [OF setup_solver_invariant] by blast
  then show "wf_state t \<and> basis_invariant t" by (simp add: loop_invariant_def)
qed

theorem pivot_preserves_basis_invariant_witness:
  "wf_state (setup_solver new_solver [3, 4] [[2, 3], [- 3, 2]] [6, 3]) \<and>
   basis_invariant (setup_solver new_solver [3, 4] [[2, 3], [- 3, 2]] [6, 3]) \<and>
   pivot (setup_solver new_solver [3, 4] [[2, 3], [- 3, 2]] [6, 3]) 0 0 =
     Some \<lparr>tableau = [[0, 1 / 2, 3 / 2, 0, 9], [1, 3 / 2, 1 / 2, 0, 3], [0, 13 / 2, 3 / 2, 1, 12]],
           num_variables = 4, num_constraints = 2, basis = [0, 3],
           objective_value = None, solution = None\<rparr> \<and>
   basis_invariant
     \<lparr>tableau = [[0, 1 / 2, 3 / 2, 0, 9], [1, 3 / 2, 1 / 2, 0, 3], [0, 13 / 2, 3 / 2, 1, 12]],
      num_variables = 4, num_constraints = 2, basis = [0, 3],
      objective_value = None, solution = None\<rparr> \<and>
   wf_problem [3, 4] [[2, 3], [- 3, 2]] [6, 3]"
proof -
  let ?s = "setup_solver new_solver [3, 4] [[2, 3], [- 3, 2]] [6, 3]"
  let ?s' = "\<lparr>tableau = [[0, 1 / 2, 3 / 2, 0, 9], [1, 3 / 2, 1 / 2, 0, 3], [0, 13 / 2, 3 / 2, 1, 12]],
           num_variables = 4, num_constraints = 2, basis = [0, 3],
           objective_value = None, solution = None\<rparr> :: lpsolver"
  have wf: "wf_state ?s" by (simp add: wf_state_def solver_eval)
  have inv: "basis_invariant ?s" by (simp add: basis_invariant_def solver_eval)
  have l: "0 < num_constraints ?s" and j: "0 < num_variables ?s" by (simp_all add: solver_eval)
  have p: "pivot ?s 0 0 = Some ?s'" by (simp add: solver_eval)
  have w: "wf_problem [3, 4] [[2, 3], [- 3, 2]] [6, 3]" by (simp add: wf_problem_def)
  from pivot_preserves_basis_invariant [of ?s 0 0 ?s'] wf inv l j p
  have "basis_invariant ?s'" by blast
  with wf inv p w show ?thesis by blast
qed

subsection \<open>Reading the solution off the tableau\<close>

lemma write_basic_length:
  "length (foldl (\<lambda>sol (i, var_idx). if var_idx < n then sol[var_idx := f i] else sol)
             init (enumerate j bs)) = length init"
  by (induction bs arbitrary: init j) auto

lemma write_basic_other:
  "v \<notin> set bs \<or> \<not> v < n \<Longrightarrow>
     foldl (\<lambda>sol (i, var_idx). if var_idx < n then sol[var_idx := f i] else sol)
       init (enumerate j bs) ! v = init ! v"
  by (induction bs arbitrary: init j) auto

lemma write_basic_nth:
  "distinct bs \<Longrightarrow> i < length bs \<Longrightarrow> bs ! i < n \<Longrightarrow> bs ! i < length init \<Longrightarrow>
     foldl (\<lambda>sol (i, var_idx). if var_idx < n then sol[var_idx := f i] else sol)
       init (enumerate j bs) ! (bs ! i) = f (j + i)"
proof (induction bs arbitrary: init j i)
  case Nil
  then show ?case by simp
next
  case (Cons b bs)
  show ?case
  proof (cases i)
    case 0
    with Cons.prems have "b \<notin> set bs" and "b < n" and "b < length init" by simp_all
    with 0 show ?thesis by (simp add: write_basic_other)
  next
    case (Suc i')
    with Cons.prems have d: "distinct bs" and i': "i' < length bs" and n: "bs ! i' < n"
      and len: "bs ! i' < length (if b < n then init[b := f j] else init)" by simp_all
    from Cons.IH [OF d i' n len, of "Suc j"] Suc show ?thesis by simp
  qed
qed

lemma basis_distinct:
  assumes "wf_state s" and "basis_invariant s"
  shows "distinct (basis s)"
  unfolding distinct_conv_nth
proof (intro allI impI)
  fix i j
  assume i: "i < length (basis s)" and j: "j < length (basis s)" and ne: "i \<noteq> j"
  from assms(2) i have "tableau s ! (i + 1) ! (basis s ! i) = 1"
    by (simp add: basis_invariant_iff)
  moreover from assms(2) i j ne have "tableau s ! (i + 1) ! (basis s ! j) = 0"
    by (simp add: basis_invariant_iff)
  ultimately show "basis s ! i \<noteq> basis s ! j" by auto
qed

lemma extract_solution_objective: "snd (extract_solution s) = - last (tableau s ! 0)"
  by (simp add: extract_solution_def Let_def)

lemma extract_solution_length:
  "num_constraints s \<le> num_variables s \<Longrightarrow>
     length (fst (extract_solution s)) = num_variables s - num_constraints s"
  by (simp add: extract_solution_def Let_def write_basic_length)

lemma extract_solution_basic:
  assumes wf: "wf_state s" and inv: "basis_invariant s"
    and i: "i < num_constraints s" and v: "basis s ! i < num_variables s - num_constraints s"
  shows "fst (extract_solution s) ! (basis s ! i) = last (tableau s ! (i + 1))"
proof -
  from wf have m: "length (basis s) = num_constraints s" by (simp add: wf_state_def)
  from v have "basis s ! i < length (replicate (num_variables s) (0::real))" by simp
  from write_basic_nth [OF basis_distinct [OF wf inv] i [folded m] v this,
      of "\<lambda>i. last (tableau s ! (i + 1))" 0]
  show ?thesis using v by (simp add: extract_solution_def Let_def)
qed

lemma extract_solution_nonbasic:
  assumes "v \<notin> set (basis s)" and "v < num_variables s - num_constraints s"
  shows "fst (extract_solution s) ! v = 0"
  using assms
  by (simp add: extract_solution_def Let_def write_basic_other)

text \<open>
  C5. When \<open>solve\<close> returns the status optimal on a shape-consistent problem, the solution
  has one entry per structural variable; the entry of variable \<open>v\<close> is the right-hand side
  of tableau row \<open>i + 1\<close> when \<open>basis[i] = v\<close> and 0 when \<open>v\<close> is in no row of the basis; the
  objective value returned is the negated right-hand side of row 0. Both are also stored in
  the solver.
\<close>

theorem optimal_solution_extraction:
  assumes "wf_problem c A b" and "solve s0 c A b mx = (Inr (Optimal sol obj n), sf)"
  shows "length sol = length c \<and>
         obj = - last (tableau sf ! 0) \<and>
         solution sf = Some sol \<and> objective_value sf = Some obj \<and>
         (\<forall>v < length c.
            (\<forall>i < num_constraints sf. basis sf ! i = v \<longrightarrow> sol ! v = last (tableau sf ! (i + 1))) \<and>
            ((\<forall>i < num_constraints sf. basis sf ! i \<noteq> v) \<longrightarrow> sol ! v = 0))"
proof -
  from assms(2) obtain j sk where it: "iterate_loop j (setup_solver s0 c A b) = Some sk"
    and ex: "extract_solution sk = (sol, obj)"
    and sf: "sf = sk\<lparr>solution := Some sol, objective_value := Some obj\<rparr>"
    unfolding solve_def by (blast dest: solve_loop_optimal)
  from iterate_loop_invariant [OF setup_solver_invariant [OF assms(1)] it]
  have inv: "loop_invariant c sk" .
  then have wf: "wf_state sk" and bi: "basis_invariant sk"
    and n: "num_variables sk - num_constraints sk = length c"
    by (simp_all add: loop_invariant_def)
  from wf have m: "length (basis sk) = num_constraints sk"
    and le: "num_constraints sk \<le> num_variables sk" by (simp_all add: wf_state_def)
  from ex have sol: "sol = fst (extract_solution sk)" and obj: "obj = snd (extract_solution sk)"
    by simp_all
  have len: "length sol = length c"
    unfolding sol extract_solution_length [OF le] n ..
  have o: "obj = - last (tableau sf ! 0)"
    unfolding obj extract_solution_objective sf by simp
  have basic: "sol ! v = last (tableau sf ! (i + 1))"
    if "v < length c" "i < num_constraints sf" "basis sf ! i = v" for v i
    using extract_solution_basic [OF wf bi, of i] that n unfolding sol sf by simp
  have nonbasic: "sol ! v = 0"
    if "v < length c" "\<forall>i < num_constraints sf. basis sf ! i \<noteq> v" for v
  proof -
    from that(2) m have "v \<notin> set (basis sk)" unfolding sf by (auto simp: in_set_conv_nth)
    from extract_solution_nonbasic [OF this] that(1) n show ?thesis unfolding sol by simp
  qed
  from len o basic nonbasic show ?thesis unfolding sf by simp
qed

theorem optimal_solution_extraction_witness:
  "wf_problem [3, 4] [[2, 3], [- 3, 2]] [6, 3] \<and>
   fst (solve new_solver [3, 4] [[2, 3], [- 3, 2]] [6, 3] 1000) = Inr (Optimal [3, 0] (- 9) 1) \<and>
   basis (snd (solve new_solver [3, 4] [[2, 3], [- 3, 2]] [6, 3] 1000)) = [0, 3] \<and>
   [3, 0] ! 0 = last (tableau (snd (solve new_solver [3, 4] [[2, 3], [- 3, 2]] [6, 3] 1000)) ! (0 + 1)) \<and>
   - 9 = - last (tableau (snd (solve new_solver [3, 4] [[2, 3], [- 3, 2]] [6, 3] 1000)) ! 0)"
proof -
  let ?r = "solve new_solver [3, 4] [[2, 3], [- 3, 2]] [6, 3] 1000"
  have w: "wf_problem [3, 4] [[2, 3], [- 3, 2]] [6, 3]" by (simp add: wf_problem_def)
  have f: "fst ?r = Inr (Optimal [3, 0] (- 9) 1)" by (simp add: solver_eval)
  then have h: "?r = (Inr (Optimal [3, 0] (- 9) 1), snd ?r)" by (metis prod.collapse)
  have bs: "basis (snd ?r) = [0, 3]" by (simp add: solver_eval)
  have nc: "num_constraints (snd ?r) = 2" by (simp add: solver_eval)
  note t = optimal_solution_extraction [OF w h]
  from t have o: "- 9 = - last (tableau (snd ?r) ! 0)" by blast
  note e = t [THEN conjunct2, THEN conjunct2, THEN conjunct2, THEN conjunct2, rule_format, of 0,
      THEN conjunct1, rule_format, of 0]
  have x: "[3, 0] ! 0 = last (tableau (snd ?r) ! (0 + 1))"
    by (rule e) (simp_all add: nc bs)
  from w f bs x o show ?thesis by blast
qed

subsection \<open>The objective of the current basic solution\<close>








text \<open>
  A nonnegative right-hand side of the problem is not enough: a coefficient in \<open>(0, eps]\<close>
  is not a candidate of the ratio test, the first pivot makes the right-hand side of its row
  negative, and the second pivot lowers the objective from 1 to -1.
\<close>

lemma objective_decreases_nonneg_rhs_example:
  "map_option (current_objective [1, 1])
     (iterate_loop 1 (setup_solver new_solver [1, 1] [[1, - 1], [1 / 10 ^ 10, 1]] [1, 0])) = Some 1 \<and>
   map_option (current_objective [1, 1])
     (iterate_loop 2 (setup_solver new_solver [1, 1] [[1, - 1], [1 / 10 ^ 10, 1]] [1, 0])) = Some (- 1)"
  by (simp add: current_objective_def dot_def solver_eval numeral_2_eq_2)

section \<open>Results on binary64 values\<close>

subsection \<open>The order on floats\<close>

lemma eps64_pos: "0 < eps64"
  by (simp add: eps64_def)

lemma fl_lt_irrefl: "\<not> fl_lt a a"
  by (simp add: fl_lt_def)

lemma fl_lt_trans: "fl_lt a b \<Longrightarrow> fl_lt b c \<Longrightarrow> fl_lt a c"
  by (auto simp: fl_lt_def)

lemma fl_not_lt_iff_le: "a \<noteq> NaN \<Longrightarrow> b \<noteq> NaN \<Longrightarrow> (\<not> fl_lt a b) = fl_le b a"
  by (auto simp: fl_lt_def fl_le_def)

lemma fl_le_not_lt: "fl_le a b \<Longrightarrow> \<not> fl_lt b a"
  by (auto simp: fl_lt_def fl_le_def)

lemma fl_le_not_NaN: "fl_le a b \<Longrightarrow> a \<noteq> NaN \<and> b \<noteq> NaN"
  by (simp add: fl_le_def)

lemma fl_lt_not_NaN: "fl_lt a b \<Longrightarrow> a \<noteq> NaN \<and> b \<noteq> NaN"
  by (simp add: fl_lt_def)

lemma fl_le_trans: "fl_le a b \<Longrightarrow> fl_le b c \<Longrightarrow> fl_le a c"
  by (auto simp: fl_le_def)

lemma fl_lt_PosInf: "fl_le (Finite 0) r \<Longrightarrow> r \<noteq> PosInf \<Longrightarrow> fl_lt r PosInf"
  by (cases r) (auto simp: fl_lt_def fl_le_def)

subsection \<open>The entering rule\<close>

lemma entering_test_fl:
  "(fl_lt coeff (Finite (- eps64)) \<and> \<not> isclose_fl coeff) = fl_lt coeff (Finite (- eps64))"
  using eps64_pos by (cases coeff) (auto simp: fl_lt_def fl_le_def isclose_fl_def)

lemma first_negative_fl_None:
  "(first_negative_fl j xs = None) = (\<forall>x\<in>set xs. \<not> fl_lt x (Finite (- eps64)))"
proof (induction xs arbitrary: j)
  case Nil
  then show ?case by simp
next
  case (Cons x xs)
  show ?case
  proof (cases "fl_lt x (Finite (- eps64))")
    case True
    then have "\<not> isclose_fl x" using entering_test_fl [of x] by simp
    with True show ?thesis by simp
  next
    case False
    with Cons.IH [of "Suc j"] show ?thesis by simp
  qed
qed

lemma first_negative_fl_Some:
  "first_negative_fl j xs = Some k \<Longrightarrow>
     j \<le> k \<and> k - j < length xs \<and> fl_lt (xs ! (k - j)) (Finite (- eps64)) \<and>
     (\<forall>i < k - j. \<not> fl_lt (xs ! i) (Finite (- eps64)))"
proof (induction xs arbitrary: j)
  case Nil
  then show ?case by simp
next
  case (Cons x xs)
  show ?case
  proof (cases "fl_lt x (Finite (- eps64))")
    case True
    then have "\<not> isclose_fl x" using entering_test_fl [of x] by simp
    with True Cons.prems show ?thesis by simp
  next
    case False
    with Cons.prems have rec: "first_negative_fl (Suc j) xs = Some k" by simp
    from Cons.IH [OF rec] have a: "Suc j \<le> k" and b: "k - Suc j < length xs"
      and c: "fl_lt (xs ! (k - Suc j)) (Finite (- eps64))"
      and d: "\<forall>i < k - Suc j. \<not> fl_lt (xs ! i) (Finite (- eps64))" by auto
    from a have e: "k - j = Suc (k - Suc j)" by simp
    show ?thesis using a b c d False unfolding e
      by (auto simp: nth_Cons split: nat.splits)
  qed
qed

lemma get_entering_fl_None:
  "(get_entering_variable_fl s = None) =
     (\<forall>x\<in>set (butlast (fl_tableau s ! 0)). \<not> fl_lt x (Finite (- eps64)))"
proof (cases "list_all (\<lambda>x. fl_le (Finite (- eps64)) x) (butlast (fl_tableau s ! 0))")
  case True
  then have "\<forall>x\<in>set (butlast (fl_tableau s ! 0)). \<not> fl_lt x (Finite (- eps64))"
    by (auto simp: list_all_iff dest: fl_le_not_lt)
  with True show ?thesis by (simp add: get_entering_variable_fl_def Let_def)
next
  case False
  then show ?thesis
    by (simp add: get_entering_variable_fl_def Let_def first_negative_fl_None)
qed

lemma get_entering_fl_Some:
  assumes "get_entering_variable_fl s = Some j"
  shows "j < length (butlast (fl_tableau s ! 0)) \<and>
         fl_lt (butlast (fl_tableau s ! 0) ! j) (Finite (- eps64)) \<and>
         (\<forall>i<j. \<not> fl_lt (butlast (fl_tableau s ! 0) ! i) (Finite (- eps64)))"
proof -
  from assms have "first_negative_fl 0 (butlast (fl_tableau s ! 0)) = Some j"
    by (simp add: get_entering_variable_fl_def Let_def split: if_splits)
  from first_negative_fl_Some [OF this] show ?thesis by simp
qed

subsection \<open>The shape of the loop\<close>

lemma solve_loop_fl_limit:
  "\<not> it < mx \<Longrightarrow> solve_loop_fl ops mx it s = (Inr (FIterationLimit mx), s)"
  by (simp add: solve_loop_fl.simps)

lemma solve_loop_fl_next:
  "it < mx \<Longrightarrow> next_state_fl ops s = Some s' \<Longrightarrow>
     solve_loop_fl ops mx it s = solve_loop_fl ops mx (it + 1) s'"
  by (subst solve_loop_fl.simps)
     (auto simp: next_state_fl_def split: option.splits sum.splits)

lemma solve_loop_fl_stop:
  assumes "it < mx" and "next_state_fl ops s = None"
  shows "solve_loop_fl ops mx it s =
     (case get_entering_variable_fl s of
        None \<Rightarrow> (Inr (FOptimal (fst (extract_solution_fl s)) (snd (extract_solution_fl s)) it),
                 s\<lparr>fl_solution := Some (fst (extract_solution_fl s)),
                   fl_objective_value := Some (snd (extract_solution_fl s))\<rparr>)
      | Some e \<Rightarrow>
          (case get_leaving_variable_fl ops s e of
             Inl err \<Rightarrow> (Inl err, s)
           | Inr l \<Rightarrow> (Inr (FUnbounded it), s)))"
  using assms
  by (subst solve_loop_fl.simps)
     (auto simp: next_state_fl_def case_prod_beta split: option.splits sum.splits)



subsection \<open>Outcomes of the loop\<close>

lemma solve_loop_fl_optimal:
  "solve_loop_fl ops mx it s = (Inr (FOptimal sol obj k), sf) \<Longrightarrow>
     \<exists>j sk. k = it + int j \<and> k < mx \<and> iterate_loop_fl ops j s = Some sk \<and>
            get_entering_variable_fl sk = None \<and> extract_solution_fl sk = (sol, obj) \<and>
            sf = sk\<lparr>fl_solution := Some sol, fl_objective_value := Some obj\<rparr>"
proof (induction "nat (mx - it)" arbitrary: it s)
  case 0
  then have "\<not> it < mx" by simp
  with "0.prems" show ?case by (simp add: solve_loop_fl_limit)
next
  case (Suc n)
  then have lt: "it < mx" by simp
  show ?case
  proof (cases "next_state_fl ops s")
    case None
    from Suc.prems lt show ?thesis
      unfolding solve_loop_fl_stop [OF lt None]
      by (auto split: option.splits sum.splits intro!: exI [of _ "0::nat"])
  next
    case (Some s')
    from Suc.hyps(2) have m: "n = nat (mx - (it + 1))" by simp
    from Suc.prems have "solve_loop_fl ops mx (it + 1) s' = (Inr (FOptimal sol obj k), sf)"
      by (simp add: solve_loop_fl_next [OF lt Some])
    from Suc.hyps(1) [OF m this] obtain j sk where
      "k = it + 1 + int j" "k < mx" "iterate_loop_fl ops j s' = Some sk"
      "get_entering_variable_fl sk = None" "extract_solution_fl sk = (sol, obj)"
      "sf = sk\<lparr>fl_solution := Some sol, fl_objective_value := Some obj\<rparr>" by blast
    then show ?thesis using Some
      by (intro exI [of _ "Suc j"] exI [of _ sk]) simp
  qed
qed








lemmas fl_eval =
  solve_fl_def setup_flsolver_def standard_form_fl_def create_initial_tableau_fl_def
  initialize_basis_fl_def new_flsolver_def eye_row_fl_def solve_loop_fl.simps
  get_entering_variable_fl_def get_leaving_variable_fl_def ratios_fl_def pivot_fl_def
  row_update_fl_def extract_solution_fl_def next_state_fl_def eps64_def isclose_fl_def
  fl_lt_def fl_le_def binary64_def b64_sub_def b64_add_def b64_mul_def b64_div_def
  fl_result_def is_zero_def is_inf_def signed_inf_def signed_zero_def
  enumerate_eq_zip upt_rec Let_def

subsection \<open>The iteration limit and the iteration count\<close>



subsection \<open>The entering rule and the optimality certificate\<close>

lemma entries_butlast:
  "(\<forall>x\<in>set (butlast row). P x) = (\<forall>j < length row - 1. P (row ! j))"
  by (auto simp: all_set_conv_all_nth nth_butlast)

text \<open>
  C3. \<open>get_entering_variable\<close> returns the first column, the right-hand side excluded, whose
  objective-row entry is below \<open>-eps\<close>, and returns no column exactly when no entry is below
  \<open>-eps\<close>: every entry is then at least \<open>-eps\<close> or NaN. When \<open>solve\<close> returns the status
  optimal, no entry of the objective row of the final tableau is below \<open>-eps\<close>; every entry is
  at least \<open>-eps\<close> when the row holds no NaN. This holds whatever the floating-point
  operations return.
\<close>

theorem entering_rule_and_certificate_fl:
  "(get_entering_variable_fl s = None \<longleftrightarrow>
      (\<forall>j < length (fl_tableau s ! 0) - 1. \<not> fl_lt (fl_tableau s ! 0 ! j) (Finite (- eps64)))) \<and>
   ((\<forall>j < length (fl_tableau s ! 0) - 1. fl_tableau s ! 0 ! j \<noteq> NaN) \<longrightarrow>
      (get_entering_variable_fl s = None \<longleftrightarrow>
         (\<forall>j < length (fl_tableau s ! 0) - 1. fl_le (Finite (- eps64)) (fl_tableau s ! 0 ! j)))) \<and>
   (\<forall>j. get_entering_variable_fl s = Some j \<longrightarrow>
      j < length (fl_tableau s ! 0) - 1 \<and> fl_lt (fl_tableau s ! 0 ! j) (Finite (- eps64)) \<and>
      (\<forall>i<j. \<not> fl_lt (fl_tableau s ! 0 ! i) (Finite (- eps64)))) \<and>
   (\<forall>sol obj k sf. solve_fl ops s0 c A b mx = (Inr (FOptimal sol obj k), sf) \<longrightarrow>
      (\<forall>j < length (fl_tableau sf ! 0) - 1.
         \<not> fl_lt (fl_tableau sf ! 0 ! j) (Finite (- eps64)) \<and>
         (fl_tableau sf ! 0 ! j \<noteq> NaN \<longrightarrow> fl_le (Finite (- eps64)) (fl_tableau sf ! 0 ! j))))"
proof -
  have none: "get_entering_variable_fl s = None \<longleftrightarrow>
      (\<forall>j < length (fl_tableau s ! 0) - 1. \<not> fl_lt (fl_tableau s ! 0 ! j) (Finite (- eps64)))"
    for s
    unfolding get_entering_fl_None by (rule entries_butlast)
  have le: "\<not> fl_lt x (Finite (- eps64)) \<longleftrightarrow> fl_le (Finite (- eps64)) x" if "x \<noteq> NaN" for x
    using that by (simp add: fl_not_lt_iff_le)
  have two: "get_entering_variable_fl s = None \<longleftrightarrow>
         (\<forall>j < length (fl_tableau s ! 0) - 1. fl_le (Finite (- eps64)) (fl_tableau s ! 0 ! j))"
    if "\<forall>j < length (fl_tableau s ! 0) - 1. fl_tableau s ! 0 ! j \<noteq> NaN"
    unfolding none using that le by blast
  have three: "j < length (fl_tableau s ! 0) - 1 \<and> fl_lt (fl_tableau s ! 0 ! j) (Finite (- eps64)) \<and>
      (\<forall>i<j. \<not> fl_lt (fl_tableau s ! 0 ! i) (Finite (- eps64)))"
    if "get_entering_variable_fl s = Some j" for j
    using get_entering_fl_Some [OF that] by (auto simp: nth_butlast)
  have four: "\<not> fl_lt (fl_tableau sf ! 0 ! j) (Finite (- eps64)) \<and>
         (fl_tableau sf ! 0 ! j \<noteq> NaN \<longrightarrow> fl_le (Finite (- eps64)) (fl_tableau sf ! 0 ! j))"
    if r: "solve_fl ops s0 c A b mx = (Inr (FOptimal sol obj k), sf)"
      and j: "j < length (fl_tableau sf ! 0) - 1" for sol obj k sf j
  proof -
    from r obtain sk where e: "get_entering_variable_fl sk = None"
      and f: "sf = sk\<lparr>fl_solution := Some sol, fl_objective_value := Some obj\<rparr>"
      unfolding solve_fl_def by (blast dest: solve_loop_fl_optimal)
    from f have t: "fl_tableau sf = fl_tableau sk" by simp
    from e j have "\<not> fl_lt (fl_tableau sf ! 0 ! j) (Finite (- eps64))"
      unfolding none t by simp
    then show ?thesis using le by blast
  qed
  from none [of s] two three four show ?thesis by blast
qed

theorem entering_rule_and_certificate_fl_witness:
  "get_entering_variable_fl
     (setup_flsolver new_flsolver [Finite 3, Finite 4]
        [[Finite 2, Finite 3], [Finite (- 3), Finite 2]] [Finite 6, Finite 3]) = Some 0 \<and>
   fl_lt (fl_tableau
     (setup_flsolver new_flsolver [Finite 3, Finite 4]
        [[Finite 2, Finite 3], [Finite (- 3), Finite 2]] [Finite 6, Finite 3]) ! 0 ! 0)
     (Finite (- eps64)) \<and>
   fst (solve_fl binary64 new_flsolver [Finite 3, Finite 4]
          [[Finite 2, Finite 3], [Finite (- 3), Finite 2]] [Finite 6, Finite 3] 1000) =
     Inr (FOptimal [Finite 3, Finite 0] (Finite (- 9)) 1) \<and>
   fl_le (Finite (- eps64))
     (fl_tableau (snd (solve_fl binary64 new_flsolver [Finite 3, Finite 4]
          [[Finite 2, Finite 3], [Finite (- 3), Finite 2]] [Finite 6, Finite 3] 1000)) ! 0 ! 1)"
proof -
  let ?s = "setup_flsolver new_flsolver [Finite 3, Finite 4]
        [[Finite 2, Finite 3], [Finite (- 3), Finite 2]] [Finite 6, Finite 3]"
  let ?r = "solve_fl binary64 new_flsolver [Finite 3, Finite 4]
          [[Finite 2, Finite 3], [Finite (- 3), Finite 2]] [Finite 6, Finite 3] 1000"
  have h1: "get_entering_variable_fl ?s = Some 0" by (simp add: fl_eval)
  have h2: "fst ?r = Inr (FOptimal [Finite 3, Finite 0] (Finite (- 9)) 1)"
    by (simp add: fl_eval)
  then have h2': "?r = (Inr (FOptimal [Finite 3, Finite 0] (Finite (- 9)) 1), snd ?r)"
    by (metis prod.collapse)
  have row: "fl_tableau (snd ?r) ! 0 =
      [Finite 0, Finite (1 / 2), Finite (3 / 2), Finite 0, Finite 9]"
    by (simp add: fl_eval)
  note t = entering_rule_and_certificate_fl [of ?s binary64 new_flsolver "[Finite 3, Finite 4]"
      "[[Finite 2, Finite 3], [Finite (- 3), Finite 2]]" "[Finite 6, Finite 3]" 1000]
  have a: "fl_lt (fl_tableau ?s ! 0 ! 0) (Finite (- eps64))"
    by (rule t [THEN conjunct2, THEN conjunct2, THEN conjunct1, rule_format, of 0,
          THEN conjunct2, THEN conjunct1]) (rule h1)
  have "fl_tableau (snd ?r) ! 0 ! 1 \<noteq> NaN \<longrightarrow>
      fl_le (Finite (- eps64)) (fl_tableau (snd ?r) ! 0 ! 1)"
    by (rule t [THEN conjunct2, THEN conjunct2, THEN conjunct2, rule_format,
          of "[Finite 3, Finite 0]" "Finite (- 9)" 1 "snd ?r" 1, THEN conjunct2])
       (rule h2', simp add: row)
  moreover have "fl_tableau (snd ?r) ! 0 ! 1 \<noteq> NaN" by (simp add: row)
  ultimately have b: "fl_le (Finite (- eps64)) (fl_tableau (snd ?r) ! 0 ! 1)" by blast
  from h1 a h2 b show ?thesis by blast
qed

theorem optimal_with_nan_row_counterexample:
  "solve_fl binary64 new_flsolver [Finite 1, Finite 1]
      [[Finite 1, Finite 0], [Finite eps64, Finite 1]] [Finite 1, Finite 0] 1000 =
   (Inr (FOptimal [Finite 0, PosInf] NegInf 2),
    \<lparr>fl_tableau = [[PosInf, NaN, PosInf, NaN, PosInf], [PosInf, NaN, PosInf, NaN, PosInf],
                   [NegInf, NaN, NegInf, NaN, NegInf]],
     fl_num_variables = 4, fl_num_constraints = 2, fl_basis = [1, 3],
     fl_objective_value = Some NegInf, fl_solution = Some [Finite 0, PosInf]\<rparr>) \<and>
   get_entering_variable_fl
     \<lparr>fl_tableau = [[PosInf, NaN, PosInf, NaN, PosInf], [PosInf, NaN, PosInf, NaN, PosInf],
                    [NegInf, NaN, NegInf, NaN, NegInf]],
      fl_num_variables = 4, fl_num_constraints = 2, fl_basis = [1, 3],
      fl_objective_value = Some NegInf, fl_solution = Some [Finite 0, PosInf]\<rparr> = None \<and>
   \<not> fl_le (Finite (- eps64)) ([PosInf, NaN, PosInf, NaN, PosInf] ! 1)"
  by (simp add: fl_eval)

subsection \<open>The minimum-ratio test on floats\<close>

lemma fl_not_lt_trans:
  "a \<noteq> NaN \<Longrightarrow> b \<noteq> NaN \<Longrightarrow> c \<noteq> NaN \<Longrightarrow>
     \<not> fl_lt b a \<Longrightarrow> \<not> fl_lt c b \<Longrightarrow> \<not> fl_lt c a"
  by (auto simp: fl_lt_def)

lemma running_min_fl_first:
  assumes "sorted_wrt (<) (map snd (x # xs))" and "\<forall>z\<in>set (x # xs). fst z \<noteq> NaN"
  defines "step \<equiv> \<lambda>best y. if fl_lt (fst y) (fst best) then y else (best :: fl \<times> nat)"
  shows "foldl step x xs \<in> set (x # xs) \<and>
         (\<forall>z\<in>set (x # xs). \<not> fl_lt (fst z) (fst (foldl step x xs)) \<and>
            (\<not> fl_lt (fst (foldl step x xs)) (fst z) \<longrightarrow> snd (foldl step x xs) \<le> snd z))"
  using assms(1,2)
proof (induction xs arbitrary: x)
  case Nil
  then show ?case by (simp add: fl_lt_irrefl)
next
  case (Cons y ys)
  show ?case
  proof (cases "fl_lt (fst y) (fst x)")
    case True
    let ?r = "foldl step y ys"
    have f: "foldl step x (y # ys) = ?r" using True by (simp add: step_def)
    from Cons.prems have "sorted_wrt (<) (map snd (y # ys))"
      and "\<forall>z\<in>set (y # ys). fst z \<noteq> NaN" by simp_all
    from Cons.IH [OF this] have mem: "?r \<in> set (y # ys)"
      and least: "\<forall>z\<in>set (y # ys). \<not> fl_lt (fst z) (fst ?r) \<and>
          (\<not> fl_lt (fst ?r) (fst z) \<longrightarrow> snd ?r \<le> snd z)"
      by blast+
    from least have ny: "\<not> fl_lt (fst y) (fst ?r)" by simp
    have nx: "\<not> fl_lt (fst x) (fst ?r)"
      using ny True fl_lt_trans by blast
    have rx: "fl_lt (fst ?r) (fst x)"
    proof (rule ccontr)
      assume "\<not> fl_lt (fst ?r) (fst x)"
      moreover from mem Cons.prems(2) have "fst ?r \<noteq> NaN" "fst x \<noteq> NaN" "fst y \<noteq> NaN"
        by auto
      ultimately have "\<not> fl_lt (fst y) (fst x)"
        using ny fl_not_lt_trans [of "fst x" "fst ?r" "fst y"] by blast
      with True show False by simp
    qed
    show ?thesis unfolding f using mem least nx rx by auto
  next
    case False
    let ?r = "foldl step x ys"
    have f: "foldl step x (y # ys) = ?r" using False by (simp add: step_def)
    from Cons.prems have s: "sorted_wrt (<) (map snd (x # ys))" and xy: "snd x < snd y"
      and nn: "\<forall>z\<in>set (x # ys). fst z \<noteq> NaN" by auto
    from Cons.IH [OF s nn] have mem: "?r \<in> set (x # ys)"
      and least: "\<forall>z\<in>set (x # ys). \<not> fl_lt (fst z) (fst ?r) \<and>
          (\<not> fl_lt (fst ?r) (fst z) \<longrightarrow> snd ?r \<le> snd z)"
      by blast+
    from mem Cons.prems(2) have nan: "fst ?r \<noteq> NaN" "fst x \<noteq> NaN" "fst y \<noteq> NaN"
      by auto
    from least have nx: "\<not> fl_lt (fst x) (fst ?r)"
      and tx: "\<not> fl_lt (fst ?r) (fst x) \<longrightarrow> snd ?r \<le> snd x" by simp_all
    have ny: "\<not> fl_lt (fst y) (fst ?r)"
      using fl_not_lt_trans [OF nan(1) nan(2) nan(3) nx False] .
    have ty: "\<not> fl_lt (fst ?r) (fst y) \<longrightarrow> snd ?r \<le> snd y"
    proof
      assume e: "\<not> fl_lt (fst ?r) (fst y)"
      have "\<not> fl_lt (fst ?r) (fst x)"
        using fl_not_lt_trans [OF nan(2) nan(3) nan(1) False e] .
      with tx xy show "snd ?r \<le> snd y" by simp
    qed
    show ?thesis unfolding f using mem least ny ty by auto
  qed
qed

lemma min_by_key_fl_first:
  assumes "sorted_wrt (<) (map snd rs)" and "\<forall>z\<in>set rs. fst z \<noteq> NaN"
    and "min_by_key_fl rs = Some r"
  shows "r \<in> set rs \<and>
         (\<forall>z\<in>set rs. \<not> fl_lt (fst z) (fst r) \<and> (\<not> fl_lt (fst r) (fst z) \<longrightarrow> snd r \<le> snd z))"
proof (cases rs)
  case Nil
  with assms(3) show ?thesis by simp
next
  case (Cons x xs)
  with assms(3) have r: "r = foldl (\<lambda>best y. if fl_lt (fst y) (fst best) then y else best) x xs"
    by simp
  from running_min_fl_first [OF assms(1,2) [unfolded Cons]] show ?thesis
    unfolding Cons r by simp
qed

lemma min_by_key_fl_None: "(min_by_key_fl rs = None) = (rs = [])"
  by (cases rs) simp_all

lemma ratios_fl_sorted:
  "sorted_wrt (<) (map snd (filter P (ratios_fl ops column b)))"
proof -
  have "map snd (ratios_fl ops column b) = [0..<length b]"
    by (auto simp: ratios_fl_def intro!: nth_equalityI)
  then have "sorted_wrt (<) (map snd (ratios_fl ops column b))" by simp
  then have "sorted_wrt (\<lambda>x y. snd x < snd y) (ratios_fl ops column b)"
    by (simp add: sorted_wrt_map)
  then have "sorted_wrt (\<lambda>x y. snd x < snd y) (filter P (ratios_fl ops column b))"
    by (rule sorted_wrt_filter)
  then show ?thesis by (simp add: sorted_wrt_map)
qed

lemma nonneg_keys_not_NaN:
  "\<forall>z\<in>set (filter (\<lambda>r. fl_le (Finite 0) (fst r)) rs). fst z \<noteq> NaN"
  by (auto dest: fl_le_not_NaN)

lemma column_fl_all_small:
  "list_all (\<lambda>x. fl_le x (Finite eps64)) (map (\<lambda>row. row ! e) (tl (fl_tableau s))) =
     (\<forall>i < length (fl_tableau s) - 1. fl_le (fl_tableau s ! (i + 1) ! e) (Finite eps64))"
proof -
  have "list_all (\<lambda>x. fl_le x (Finite eps64)) (map (\<lambda>row. row ! e) (tl (fl_tableau s))) =
      (\<forall>i < length (fl_tableau s) - 1.
         fl_le (map (\<lambda>row. row ! e) (tl (fl_tableau s)) ! i) (Finite eps64))"
    by (simp add: list_all_length)
  also have "\<dots> = (\<forall>i < length (fl_tableau s) - 1. fl_le (fl_tableau s ! (i + 1) ! e) (Finite eps64))"
    by (auto simp: nth_tl)
  finally show ?thesis .
qed

lemma ratio_fl_entry:
  "(r, i) \<in> set (filter (\<lambda>r. fl_le (Finite 0) (fst r))
       (ratios_fl ops (map (\<lambda>row. row ! e) (tl (fl_tableau s))) (map last (tl (fl_tableau s))))) \<longleftrightarrow>
   i < length (fl_tableau s) - 1 \<and> fl_le (Finite 0) r \<and>
   r = (if candidate_fl s e i then ratio_fl ops s e i else PosInf)"
  by (auto simp: ratios_fl_def candidate_fl_def ratio_fl_def nth_tl)

lemma get_leaving_fl_None:
  "(get_leaving_variable_fl ops s e = Inr None) =
     (\<forall>i < length (fl_tableau s) - 1. fl_le (fl_tableau s ! (i + 1) ! e) (Finite eps64))"
  unfolding column_fl_all_small [symmetric]
  by (simp add: get_leaving_variable_fl_def Let_def split: option.splits prod.splits)

lemma get_leaving_fl_bound:
  assumes "get_leaving_variable_fl ops s e = Inr (Some l)"
  shows "l < length (fl_tableau s) - 1"
proof -
  let ?F = "filter (\<lambda>r. fl_le (Finite 0) (fst r))
       (ratios_fl ops (map (\<lambda>row. row ! e) (tl (fl_tableau s))) (map last (tl (fl_tableau s))))"
  from assms obtain r where m: "min_by_key_fl ?F = Some (r, l)"
    by (auto simp: get_leaving_variable_fl_def Let_def split: if_splits option.splits)
  from min_by_key_fl_first [OF ratios_fl_sorted nonneg_keys_not_NaN m]
  have "(r, l) \<in> set ?F" by (rule conjunct1)
  then show ?thesis unfolding ratio_fl_entry by simp
qed

lemma get_leaving_fl_min_nonneg:
  assumes i: "i < length (fl_tableau s) - 1" and c: "candidate_fl s e i"
    and n: "finite_nonneg (ratio_fl ops s e i)"
  shows "\<exists>l. get_leaving_variable_fl ops s e = Inr (Some l) \<and>
             is_min_nonneg_ratio_row_fl ops s e l"
proof -
  let ?F = "filter (\<lambda>r. fl_le (Finite 0) (fst r))
       (ratios_fl ops (map (\<lambda>row. row ! e) (tl (fl_tableau s))) (map last (tl (fl_tableau s))))"
  from n have n0: "fl_le (Finite 0) (ratio_fl ops s e i)" and fin: "ratio_fl ops s e i \<noteq> PosInf"
    by (simp_all add: finite_nonneg_def)
  from c have "\<not> fl_le (fl_tableau s ! (i + 1) ! e) (Finite eps64)"
    by (auto simp: candidate_fl_def dest: fl_le_not_lt)
  with i have notall: "\<not> list_all (\<lambda>x. fl_le x (Finite eps64))
      (map (\<lambda>row. row ! e) (tl (fl_tableau s)))"
    unfolding column_fl_all_small by blast
  from i c n0 have mem: "(ratio_fl ops s e i, i) \<in> set ?F"
    unfolding ratio_fl_entry by simp
  from length_pos_if_in_set [OF mem] have "?F \<noteq> []" by (simp del: filter_False)
  then obtain r l where m: "min_by_key_fl ?F = Some (r, l)"
    using min_by_key_fl_None [of ?F] by (cases "min_by_key_fl ?F") auto
  from notall m have res: "get_leaving_variable_fl ops s e = Inr (Some l)"
    by (simp add: get_leaving_variable_fl_def Let_def)
  note both = min_by_key_fl_first [OF ratios_fl_sorted nonneg_keys_not_NaN m,
      unfolded fst_conv snd_conv]
  from both have rl: "(r, l) \<in> set ?F" by (rule conjunct1)
  from both have least: "\<forall>z\<in>set ?F. \<not> fl_lt (fst z) r \<and> (\<not> fl_lt r (fst z) \<longrightarrow> l \<le> snd z)"
    by (rule conjunct2)
  from least mem have "\<not> fl_lt (ratio_fl ops s e i) r" by fastforce
  with fl_lt_PosInf [OF n0 fin] have rfin: "r \<noteq> PosInf" by auto
  from rl [unfolded ratio_fl_entry] rfin have l: "l < length (fl_tableau s) - 1"
    and cl: "candidate_fl s e l" and r: "r = ratio_fl ops s e l" and r0: "fl_le (Finite 0) r"
    by (auto split: if_splits)
  have "fl_le (ratio_fl ops s e l) (ratio_fl ops s e k) \<and>
      (fl_le (ratio_fl ops s e k) (ratio_fl ops s e l) \<longrightarrow> l \<le> k)"
    if k: "k < length (fl_tableau s) - 1" "candidate_fl s e k"
      "fl_le (Finite 0) (ratio_fl ops s e k)" for k
  proof -
    from k have "(ratio_fl ops s e k, k) \<in> set ?F" unfolding ratio_fl_entry by simp
    with least have a: "\<not> fl_lt (ratio_fl ops s e k) r"
      and b: "\<not> fl_lt r (ratio_fl ops s e k) \<longrightarrow> l \<le> k"
      by fastforce+
    from k(3) r0 have nn: "ratio_fl ops s e k \<noteq> NaN" "r \<noteq> NaN"
      by (auto dest: fl_le_not_NaN)
    from a nn have "fl_le r (ratio_fl ops s e k)" by (simp add: fl_not_lt_iff_le)
    moreover from b have "fl_le (ratio_fl ops s e k) r \<longrightarrow> l \<le> k"
      by (auto dest: fl_le_not_lt)
    ultimately show ?thesis unfolding r by simp
  qed
  then have "is_min_nonneg_ratio_row_fl ops s e l"
    using l cl r0 r by (auto simp: is_min_nonneg_ratio_row_fl_def list_all_iff)
  with res show ?thesis by blast
qed

text \<open>
  C2. \<open>get_leaving_variable\<close> returns no row exactly when every constraint row has an entry at
  most \<open>eps\<close> in the entering column; for a column without NaN, exactly when no constraint row
  is a candidate (entry above \<open>eps\<close>). The ratios are the floating-point quotients, and the
  rows whose ratio is negative are filtered out before the minimum is taken: whenever some
  candidate row has a finite ratio that is not negative, the row returned is the candidate of
  least ratio among the candidates whose ratio is not negative, the smallest index among
  ties. This holds whatever the floating-point division returns.
\<close>

theorem leaving_rule_fl:
  "(get_leaving_variable_fl ops s j = Inr None \<longleftrightarrow>
      (\<forall>i < length (fl_tableau s) - 1. fl_le (fl_tableau s ! (i + 1) ! j) (Finite eps64))) \<and>
   ((\<forall>i < length (fl_tableau s) - 1. fl_tableau s ! (i + 1) ! j \<noteq> NaN) \<longrightarrow>
      (get_leaving_variable_fl ops s j = Inr None \<longleftrightarrow>
         (\<forall>i < length (fl_tableau s) - 1. \<not> candidate_fl s j i))) \<and>
   (\<forall>i. i < length (fl_tableau s) - 1 \<and> candidate_fl s j i \<and>
        finite_nonneg (ratio_fl ops s j i) \<longrightarrow>
      (\<exists>l. get_leaving_variable_fl ops s j = Inr (Some l) \<and>
           is_min_nonneg_ratio_row_fl ops s j l)) \<and>
   (\<forall>l. get_leaving_variable_fl ops s j = Inr (Some l) \<longrightarrow> l < length (fl_tableau s) - 1)"
proof -
  have two: "get_leaving_variable_fl ops s j = Inr None \<longleftrightarrow>
         (\<forall>i < length (fl_tableau s) - 1. \<not> candidate_fl s j i)"
    if nn: "\<forall>i < length (fl_tableau s) - 1. fl_tableau s ! (i + 1) ! j \<noteq> NaN"
  proof -
    have "fl_le (fl_tableau s ! (i + 1) ! j) (Finite eps64) \<longleftrightarrow> \<not> candidate_fl s j i"
      if "i < length (fl_tableau s) - 1" for i
      using nn that by (simp add: candidate_fl_def fl_not_lt_iff_le)
    then show ?thesis unfolding get_leaving_fl_None by blast
  qed
  from get_leaving_fl_None [of ops s j] two get_leaving_fl_min_nonneg [of _ s j ops]
    get_leaving_fl_bound [of ops s j]
  show ?thesis by blast
qed

theorem leaving_rule_fl_witness:
  "candidate_fl
     (setup_flsolver new_flsolver [Finite 1] [[Finite 1], [Finite 1]] [Finite (- 1), Finite 1]) 0 1 \<and>
   finite_nonneg (ratio_fl binary64
     (setup_flsolver new_flsolver [Finite 1] [[Finite 1], [Finite 1]] [Finite (- 1), Finite 1]) 0 1) \<and>
   get_leaving_variable_fl binary64
     (setup_flsolver new_flsolver [Finite 1] [[Finite 1], [Finite 1]] [Finite (- 1), Finite 1]) 0 =
     Inr (Some 1) \<and>
   is_min_nonneg_ratio_row_fl binary64
     (setup_flsolver new_flsolver [Finite 1] [[Finite 1], [Finite 1]] [Finite (- 1), Finite 1]) 0 1"
proof -
  let ?s = "setup_flsolver new_flsolver [Finite 1] [[Finite 1], [Finite 1]] [Finite (- 1), Finite 1]"
  have len: "1 < length (fl_tableau ?s) - 1" by (simp add: fl_eval)
  have c: "candidate_fl ?s 0 1" by (simp add: candidate_fl_def fl_eval)
  have n: "finite_nonneg (ratio_fl binary64 ?s 0 1)"
    by (simp add: finite_nonneg_def ratio_fl_def fl_eval)
  have g: "get_leaving_variable_fl binary64 ?s 0 = Inr (Some 1)" by (simp add: fl_eval)
  have "\<exists>l. get_leaving_variable_fl binary64 ?s 0 = Inr (Some l) \<and>
      is_min_nonneg_ratio_row_fl binary64 ?s 0 l"
    by (rule leaving_rule_fl [of binary64 ?s 0, THEN conjunct2, THEN conjunct2, THEN conjunct1,
          rule_format, of 1]) (intro conjI len c n)
  with g have a: "is_min_nonneg_ratio_row_fl binary64 ?s 0 1" by auto
  from c n g a show ?thesis by blast
qed

theorem leaving_rule_counterexample:
  "get_leaving_variable_fl binary64
     (setup_flsolver new_flsolver [Finite 1] [[Finite 1], [Finite 1]] [Finite (- 1), Finite 1]) 0 =
     Inr (Some 1) \<and>
   \<not> is_min_ratio_row_fl binary64
     (setup_flsolver new_flsolver [Finite 1] [[Finite 1], [Finite 1]] [Finite (- 1), Finite 1]) 0 1 \<and>
   is_min_ratio_row_fl binary64
     (setup_flsolver new_flsolver [Finite 1] [[Finite 1], [Finite 1]] [Finite (- 1), Finite 1]) 0 0 \<and>
   get_leaving_variable_fl binary64
     (setup_flsolver new_flsolver [Finite 1] [[Finite 0], [Finite (1 / 2)]]
        [Finite 1, Finite (2 ^ 1023)]) 0 = Inr (Some 0) \<and>
   \<not> candidate_fl
     (setup_flsolver new_flsolver [Finite 1] [[Finite 0], [Finite (1 / 2)]]
        [Finite 1, Finite (2 ^ 1023)]) 0 0 \<and>
   is_min_ratio_row_fl binary64
     (setup_flsolver new_flsolver [Finite 1] [[Finite 0], [Finite (1 / 2)]]
        [Finite 1, Finite (2 ^ 1023)]) 0 1"
  by (simp add: is_min_ratio_row_fl_def candidate_fl_def ratio_fl_def fl_eval)

text \<open>
  C10. On a tableau whose constraint rows all have a nonnegative right-hand side and in which
  the ratio computed for some candidate row is finite and not negative (its quotient has not
  overflowed to infinity), a row returned by \<open>get_leaving_variable\<close> is a constraint row whose
  entry in the entering column is above \<open>eps\<close>; so the pivot element is not zero and \<open>pivot\<close>
  does not divide by zero. This holds whatever the floating-point division returns.
\<close>

theorem leaving_row_pivot_element_positive_fl:
  assumes "rhs_nonneg_fl s"
    and "i < length (fl_tableau s) - 1 \<and> candidate_fl s j i \<and> finite_nonneg (ratio_fl ops s j i)"
    and "get_leaving_variable_fl ops s j = Inr (Some l)"
  shows "l < length (fl_tableau s) - 1 \<and> fl_lt (Finite eps64) (fl_tableau s ! (l + 1) ! j) \<and>
         \<not> is_zero (fl_tableau s ! (l + 1) ! j)"
proof -
  from assms(2) get_leaving_fl_min_nonneg [of i s j ops] assms(3)
  have "is_min_nonneg_ratio_row_fl ops s j l" by auto
  then have l: "l < length (fl_tableau s) - 1" and c: "candidate_fl s j l"
    by (simp_all add: is_min_nonneg_ratio_row_fl_def)
  from c have p: "fl_lt (Finite eps64) (fl_tableau s ! (l + 1) ! j)"
    by (simp add: candidate_fl_def)
  then have "\<not> is_zero (fl_tableau s ! (l + 1) ! j)"
    using eps64_pos by (auto simp: is_zero_def fl_lt_def)
  with l p show ?thesis by simp
qed

theorem leaving_row_pivot_element_positive_fl_witness:
  "rhs_nonneg_fl (setup_flsolver new_flsolver [Finite 3, Finite 4]
       [[Finite 2, Finite 3], [Finite (- 3), Finite 2]] [Finite 6, Finite 3]) \<and>
   candidate_fl (setup_flsolver new_flsolver [Finite 3, Finite 4]
       [[Finite 2, Finite 3], [Finite (- 3), Finite 2]] [Finite 6, Finite 3]) 0 0 \<and>
   finite_nonneg (ratio_fl binary64 (setup_flsolver new_flsolver [Finite 3, Finite 4]
       [[Finite 2, Finite 3], [Finite (- 3), Finite 2]] [Finite 6, Finite 3]) 0 0) \<and>
   get_leaving_variable_fl binary64 (setup_flsolver new_flsolver [Finite 3, Finite 4]
       [[Finite 2, Finite 3], [Finite (- 3), Finite 2]] [Finite 6, Finite 3]) 0 = Inr (Some 0) \<and>
   fl_lt (Finite eps64) (fl_tableau (setup_flsolver new_flsolver [Finite 3, Finite 4]
       [[Finite 2, Finite 3], [Finite (- 3), Finite 2]] [Finite 6, Finite 3]) ! (0 + 1) ! 0)"
proof -
  let ?s = "setup_flsolver new_flsolver [Finite 3, Finite 4]
       [[Finite 2, Finite 3], [Finite (- 3), Finite 2]] [Finite 6, Finite 3]"
  have f: "rhs_nonneg_fl ?s" by (simp add: rhs_nonneg_fl_def fl_eval)
  have len: "0 < length (fl_tableau ?s) - 1" by (simp add: fl_eval)
  have c: "candidate_fl ?s 0 0" by (simp add: candidate_fl_def fl_eval)
  have n: "finite_nonneg (ratio_fl binary64 ?s 0 0)"
    by (simp add: finite_nonneg_def ratio_fl_def fl_eval)
  have g: "get_leaving_variable_fl binary64 ?s 0 = Inr (Some 0)" by (simp add: fl_eval)
  from len c n have h: "0 < length (fl_tableau ?s) - 1 \<and> candidate_fl ?s 0 0 \<and>
      finite_nonneg (ratio_fl binary64 ?s 0 0)" by blast
  from leaving_row_pivot_element_positive_fl [OF f h g] f c n g show ?thesis by blast
qed

theorem overflowed_ratio_zero_pivot_counterexample:
  "rhs_nonneg_fl
     (setup_flsolver new_flsolver [Finite 1] [[Finite 0], [Finite (1 / 2)]]
        [Finite 1, Finite (2 ^ 1023)]) \<and>
   ratio_fl binary64
     (setup_flsolver new_flsolver [Finite 1] [[Finite 0], [Finite (1 / 2)]]
        [Finite 1, Finite (2 ^ 1023)]) 0 1 = PosInf \<and>
   get_leaving_variable_fl binary64
     (setup_flsolver new_flsolver [Finite 1] [[Finite 0], [Finite (1 / 2)]]
        [Finite 1, Finite (2 ^ 1023)]) 0 = Inr (Some 0) \<and>
   fl_tableau
     (setup_flsolver new_flsolver [Finite 1] [[Finite 0], [Finite (1 / 2)]]
        [Finite 1, Finite (2 ^ 1023)]) ! (0 + 1) ! 0 = Finite 0 \<and>
   \<not> fl_lt (Finite eps64) (Finite 0) \<and>
   fl_tableau (pivot_fl binary64
     (setup_flsolver new_flsolver [Finite 1] [[Finite 0], [Finite (1 / 2)]]
        [Finite 1, Finite (2 ^ 1023)]) 0 0) ! (0 + 1) = [NaN, PosInf, NaN, PosInf]"
  by (simp add: rhs_nonneg_fl_def ratio_fl_def fl_eval)

subsection \<open>The objective under overflow\<close>



end
